theory Spec2Isabelle
  imports Main "HOL-Library.Word"
begin

section \<open>The pixel editor canvas of the Monkey Island font editor\<close>

text \<open>
  A shallow embedding of \<^verbatim>\<open>PixelEditorCanvas\<close> (monkey_island_font_editor.py): the
  indexed pixel buffer, the snapshot history, the selection, the clipboard, the paste
  session and the loading and saving of the palette. Painting, widget sizing and the
  Qt signals change no field that an operation reads, and are left out; the fields
  \<^verbatim>\<open>grid_enabled\<close>, \<^verbatim>\<open>show_char_indices\<close> and \<^verbatim>\<open>hover_y\<close> are only read by the painter.
\<close>

subsection \<open>Errors\<close>

datatype error = OpenError | ZeroDivisionError | TypeError | AttributeError | OverflowError

subsection \<open>The Qt image\<close>

text \<open>
  A \<^verbatim>\<open>QImage\<close> of format Indexed8: its size, one byte per cell (a palette index),
  stored row by row, and its colour table. The source reads and writes cells only inside
  the image (every call of \<^verbatim>\<open>pixelIndex\<close> and \<^verbatim>\<open>setPixel\<close> is inside a loop over the
  image or behind a bounds test). \<^verbatim>\<open>setPixel\<close> takes an unsigned 32-bit value; it changes
  nothing for a position outside the image and nothing for an index that is not in the
  colour table. A Python int outside the 32 bits raises OverflowError where the call is
  made (\<open>to_uint\<close>); that can only be the current colour index, the other calls pass
  a byte. \<^verbatim>\<open>pixelIndex\<close> returns the byte of the cell, so the lists the source
  builds from it (snapshots, the clipboard) are lists of bytes, as are the bytes of a file.
  An entry of the colour table is kept as the red, green and blue given to \<^verbatim>\<open>QColor\<close>.
\<close>

type_synonym rgb = "int \<times> int \<times> int"

record qimage =
  width :: nat
  height :: nat
  pixels :: "8 word list"
  colortable :: "rgb list"

definition QImage :: "nat \<Rightarrow> nat \<Rightarrow> (nat \<Rightarrow> 8 word) \<Rightarrow> qimage" where
  \<comment> \<open>\<^verbatim>\<open>QImage(width, height, Format_Indexed8)\<close> allocates cells that are not initialised:
      the third argument is what happens to be in them. The colour table starts empty.\<close>
  "QImage w h fresh = \<lparr>width = w, height = h, pixels = map fresh [0..<w * h], colortable = []\<rparr>"

definition setColor :: "qimage \<Rightarrow> nat \<Rightarrow> rgb \<Rightarrow> qimage" where
  \<comment> \<open>an index of 256 or more is refused; one past the end of the table makes the table
      longer, the entries in between being transparent black\<close>
  "setColor im i c =
     (if 256 \<le> i then im
      else if i < length (colortable im) then im\<lparr>colortable := (colortable im)[i := c]\<rparr>
      else im\<lparr>colortable :=
                colortable im @ replicate (i - length (colortable im)) (0, 0, 0) @ [c]\<rparr>)"

definition pixelIndex :: "qimage \<Rightarrow> nat \<Rightarrow> nat \<Rightarrow> 8 word" where
  "pixelIndex im x y = pixels im ! (y * width im + x)"

definition setPixel :: "qimage \<Rightarrow> nat \<Rightarrow> nat \<Rightarrow> 32 word \<Rightarrow> qimage" where
  "setPixel im x y index_or_rgb =
     (if x < width im \<and> y < height im \<and> unat index_or_rgb < length (colortable im)
      then im\<lparr>pixels := (pixels im)[y * width im + x := ucast index_or_rgb]\<rparr>
      else im)"

definition to_uint :: "int \<Rightarrow> error + 32 word" where
  \<comment> \<open>a Python int given for an unsigned 32-bit parameter: OverflowError outside the range\<close>
  "to_uint i = (if 0 \<le> i \<and> i < 2 ^ 32 then Inr (word_of_int i) else Inl OverflowError)"

subsection \<open>The decoded file\<close>

text \<open>
  What \<^verbatim>\<open>Image.open\<close> of PIL hands to \<^verbatim>\<open>load_image\<close>: the mode PIL gives the picture,
  its size, the list that \<^verbatim>\<open>getpalette()\<close> returns (read for mode P only), and the bytes
  of \<^verbatim>\<open>tobytes()\<close> once the picture is in mode P (for a picture of another mode, after
  \<^verbatim>\<open>convert('P')\<close>). The mode is PIL's reading of the file: it opens an indexed BMP
  whose palette is a grey ramp in mode L (or 1), with no palette.
  The same record describes the picture that \<^verbatim>\<open>save_image\<close> hands to PIL's writer.
\<close>

record pil_image =
  pil_mode :: string
  pil_size :: "nat \<times> nat"
  pil_palette :: "int list"
  pil_bytes :: "8 word list"

subsection \<open>The canvas\<close>

type_synonym snapshot = "8 word list \<times> string \<times> nat \<times> nat"

record canvas =
  image' :: "qimage option"
  original_palette :: "int list option"
  zoom_level :: int
  current_color_index :: int
  drawing :: bool
  char_height :: int
  selecting :: bool
  selection_start :: "(int \<times> int) option"
  selection_end :: "(int \<times> int) option"
  clipboard_data :: "8 word list option"
  clipboard_size :: "(int \<times> int) option"
  paste_mode :: bool
  paste_position :: "(int \<times> int) option"
  paste_dragging :: bool
  edit_mode :: string
  undo_stack :: "snapshot list"
  redo_stack :: "snapshot list"
  max_history :: nat

definition init :: canvas where
  \<comment> \<open>\<^verbatim>\<open>__init__\<close>\<close>
  "init = \<lparr>image' = None, original_palette = None, zoom_level = 20,
     current_color_index = 1, drawing = False, char_height = 8, selecting = False,
     selection_start = None, selection_end = None, clipboard_data = None,
     clipboard_size = None, paste_mode = False, paste_position = None,
     paste_dragging = False, edit_mode = ''draw'', undo_stack = [], redo_stack = [],
     max_history = 50\<rparr>"

definition truthy :: "'a list option \<Rightarrow> bool" where
  \<comment> \<open>Python's truth value of a list or None\<close>
  "truthy v = (case v of None \<Rightarrow> False | Some xs \<Rightarrow> xs \<noteq> [])"

subsection \<open>Loading\<close>

definition detect_char_height :: "nat \<Rightarrow> int" where
  \<comment> \<open>the if/elif chain of \<^verbatim>\<open>load_image\<close> on the height of the bitmap\<close>
  "detect_char_height h =
     (if h = 2048 then 8
      else if h = 2259 then 9
      else if h = 3390 then 15
      else if h = 3584 then 14
      else (let ch = int (h div 256) in if ch < 1 then 8 else ch))"

definition fill_color_table :: "qimage \<Rightarrow> int list \<Rightarrow> qimage" where
  \<comment> \<open>the block \<^verbatim>\<open>palette = self.original_palette[:768]; for i in range(256): ...
      self.image.setColor(i, QColor(r, g, b).rgb())\<close>\<close>
  "fill_color_table im0 stored_palette =
     (let palette = take 768 stored_palette
      in foldl (\<lambda>im i.
           (let r = (if i * 3 < length palette then palette ! (i * 3) else 0);
                g = (if i * 3 + 1 < length palette then palette ! (i * 3 + 1) else 0);
                b = (if i * 3 + 2 < length palette then palette ! (i * 3 + 2) else 0)
            in setColor im i (r, g, b)))
         im0 [0..<256])"

definition copy_pixel_data :: "qimage \<Rightarrow> 8 word list \<Rightarrow> qimage" where
  \<comment> \<open>the loop \<^verbatim>\<open>for y: for x: idx = y * width + x; if idx < len(pixel_data): setPixel\<close>\<close>
  "copy_pixel_data im0 pixel_data =
     foldl (\<lambda>im y.
        foldl (\<lambda>im x.
           (let idx = y * width im0 + x
            in if idx < length pixel_data then setPixel im x y (ucast (pixel_data ! idx))
               else im))
          im [0..<width im0])
       im0 [0..<height im0]"

definition load_image :: "canvas \<Rightarrow> (nat \<Rightarrow> 8 word) \<Rightarrow> pil_image option \<Rightarrow> error + canvas" where
  \<comment> \<open>\<open>opened\<close> is the outcome of \<^verbatim>\<open>Image.open(image_path)\<close>, None when it raises. The
      colour table is filled only \<^verbatim>\<open>if self.original_palette\<close>, the palette stored by this
      load or by an earlier one.\<close>
  "load_image c fresh opened =
     (case opened of
        None \<Rightarrow> Inl OpenError
      | Some pil_image \<Rightarrow>
          (let palette = (if pil_mode pil_image = ''P'' then Some (pil_palette pil_image)
                          else original_palette c);
               (w, h) = pil_size pil_image;
               im0 = QImage w h fresh;
               im1 = (case palette of
                        None \<Rightarrow> im0
                      | Some pal \<Rightarrow> if pal = [] then im0 else fill_color_table im0 pal)
           in Inr (c\<lparr>original_palette := palette,
                     char_height := detect_char_height h,
                     image' := Some (copy_pixel_data im1 (pil_bytes pil_image)),
                     undo_stack := [],
                     redo_stack := []\<rparr>)))"

subsection \<open>Drawing and the mouse\<close>

record mouse_event =
  ev_left :: bool  \<comment> \<open>\<^verbatim>\<open>event.button() == LeftButton\<close>\<close>
  ev_pos :: "int \<times> int"  \<comment> \<open>\<^verbatim>\<open>event.pos()\<close>, in widget coordinates\<close>
  ev_shift :: bool  \<comment> \<open>\<^verbatim>\<open>event.modifiers() & ShiftModifier\<close>\<close>

definition draw_pixel :: "canvas \<Rightarrow> int \<times> int \<Rightarrow> error + canvas" where
  \<comment> \<open>Python's \<^verbatim>\<open>//\<close> is \<open>div\<close> on \<open>int\<close> and raises on a zero divisor; the colour index
      is converted when \<^verbatim>\<open>setPixel\<close> is called; the method returns None on every path.\<close>
  "draw_pixel c pos =
     (case image' c of
        None \<Rightarrow> Inr c
      | Some im \<Rightarrow>
          if zoom_level c = 0 then Inl ZeroDivisionError
          else (let x = fst pos div zoom_level c; y = snd pos div zoom_level c
                in if 0 \<le> x \<and> x < int (width im) \<and> 0 \<le> y \<and> y < int (height im)
                   then (case to_uint (current_color_index c) of
                           Inl e \<Rightarrow> Inl e
                         | Inr index \<Rightarrow>
                             Inr (c\<lparr>image' := Some (setPixel im (nat x) (nat y) index)\<rparr>))
                   else Inr c))"

definition set_zoom :: "canvas \<Rightarrow> int \<Rightarrow> canvas" where
  "set_zoom c z = c\<lparr>zoom_level := z\<rparr>"

definition set_color :: "canvas \<Rightarrow> int \<Rightarrow> canvas" where
  "set_color c color_index = c\<lparr>current_color_index := color_index\<rparr>"

definition set_char_height :: "canvas \<Rightarrow> int \<Rightarrow> canvas" where
  "set_char_height c h = c\<lparr>char_height := h\<rparr>"

definition clear_selection :: "canvas \<Rightarrow> canvas" where
  "clear_selection c = c\<lparr>selection_start := None, selection_end := None\<rparr>"

definition set_edit_mode :: "canvas \<Rightarrow> string \<Rightarrow> canvas" where
  "set_edit_mode c mode =
     (if mode \<in> set [''draw'', ''select'']
      then (let c1 = c\<lparr>edit_mode := mode\<rparr>
            in if mode = ''draw'' then clear_selection c1 else c1)
      else c)"

subsection \<open>History\<close>

definition pixel_data_of :: "qimage \<Rightarrow> 8 word list" where
  \<comment> \<open>the loop \<^verbatim>\<open>for y: for x: pixel_data.append(self.image.pixelIndex(x, y))\<close>, which
      \<^verbatim>\<open>save_state\<close>, \<^verbatim>\<open>undo\<close>, \<^verbatim>\<open>redo\<close> and \<^verbatim>\<open>save_image\<close> each write out\<close>
  "pixel_data_of im =
     foldl (\<lambda>acc y. foldl (\<lambda>acc x. acc @ [pixelIndex im x y]) acc [0..<width im])
       [] [0..<height im]"

definition restore_pixels :: "qimage \<Rightarrow> 8 word list \<Rightarrow> qimage" where
  \<comment> \<open>the restoring loop of \<^verbatim>\<open>undo\<close> and \<^verbatim>\<open>redo\<close>, with its running \<^verbatim>\<open>idx\<close>\<close>
  "restore_pixels im0 pixel_data =
     fst (foldl (\<lambda>s y.
            foldl (\<lambda>(im, idx) x.
               (if idx < length pixel_data then setPixel im x y (ucast (pixel_data ! idx))
                else im,
                idx + 1))
              s [0..<width im0])
           (im0, 0) [0..<height im0])"

definition save_state :: "canvas \<Rightarrow> string \<Rightarrow> canvas" where
  "save_state c description =
     (case image' c of
        None \<Rightarrow> c
      | Some im \<Rightarrow>
          (let pushed = undo_stack c @ [(pixel_data_of im, description, width im, height im)];
               limited = (if length pushed > max_history c then tl pushed else pushed)
           in c\<lparr>undo_stack := limited, redo_stack := []\<rparr>))"

definition undo :: "canvas \<Rightarrow> bool \<times> canvas" where
  "undo c =
     (case image' c of
        None \<Rightarrow> (False, c)
      | Some im \<Rightarrow>
          if undo_stack c = [] then (False, c)
          else (let c1 = c\<lparr>redo_stack :=
                            redo_stack c @ [(pixel_data_of im, ''Current'', width im, height im)]\<rparr>;
                    (pixel_data, description, w, h) = last (undo_stack c1);
                    c2 = c1\<lparr>undo_stack := butlast (undo_stack c1)\<rparr>
                in if w = width im \<and> h = height im
                   then (True, c2\<lparr>image' := Some (restore_pixels im pixel_data)\<rparr>)
                   else (False, c2)))"

definition redo :: "canvas \<Rightarrow> bool \<times> canvas" where
  "redo c =
     (case image' c of
        None \<Rightarrow> (False, c)
      | Some im \<Rightarrow>
          if redo_stack c = [] then (False, c)
          else (let c1 = c\<lparr>undo_stack :=
                            undo_stack c @ [(pixel_data_of im, ''Current'', width im, height im)]\<rparr>;
                    (pixel_data, description, w, h) = last (redo_stack c1);
                    c2 = c1\<lparr>redo_stack := butlast (redo_stack c1)\<rparr>
                in if w = width im \<and> h = height im
                   then (True, c2\<lparr>image' := Some (restore_pixels im pixel_data)\<rparr>)
                   else (False, c2)))"

definition can_undo :: "canvas \<Rightarrow> bool" where
  "can_undo c = (length (undo_stack c) > 0)"

definition can_redo :: "canvas \<Rightarrow> bool" where
  "can_redo c = (length (redo_stack c) > 0)"

subsection \<open>Mouse events\<close>

definition mousePressEvent :: "canvas \<Rightarrow> mouse_event \<Rightarrow> error + canvas" where
  "mousePressEvent c e =
     (case image' c of
        None \<Rightarrow> Inr c
      | Some im \<Rightarrow>
          if \<not> ev_left e then Inr c
          else if paste_mode c then
            (if zoom_level c = 0 then Inl ZeroDivisionError
             else (let x = fst (ev_pos e) div zoom_level c; y = snd (ev_pos e) div zoom_level c
                   in Inr (c\<lparr>paste_position := Some (x, y), paste_dragging := True\<rparr>)))
          else if edit_mode c = ''select'' \<or> ev_shift e then
            (if zoom_level c = 0 then Inl ZeroDivisionError
             else (let x = fst (ev_pos e) div zoom_level c; y = snd (ev_pos e) div zoom_level c
                   in Inr (c\<lparr>selecting := True, selection_start := Some (x, y),
                              selection_end := Some (x, y)\<rparr>)))
          else if edit_mode c = ''draw'' then
            draw_pixel ((save_state c ''Draw'')\<lparr>drawing := True\<rparr>) (ev_pos e)
          else Inr c)"

definition mouseMoveEvent :: "canvas \<Rightarrow> mouse_event \<Rightarrow> error + canvas" where
  "mouseMoveEvent c e =
     (case image' c of
        None \<Rightarrow> Inr c
      | Some im \<Rightarrow>
          if zoom_level c = 0 then Inl ZeroDivisionError
          else (let x = fst (ev_pos e) div zoom_level c; y = snd (ev_pos e) div zoom_level c
                in if selecting c then Inr (c\<lparr>selection_end := Some (x, y)\<rparr>)
                   else if paste_dragging c then Inr (c\<lparr>paste_position := Some (x, y)\<rparr>)
                   else if drawing c then draw_pixel c (ev_pos e)
                   else Inr c))"

definition mouseReleaseEvent :: "canvas \<Rightarrow> mouse_event \<Rightarrow> canvas" where
  "mouseReleaseEvent c e =
     (if ev_left e then c\<lparr>drawing := False, selecting := False, paste_dragging := False\<rparr>
      else c)"

subsection \<open>Selection, clipboard and paste\<close>

definition cell_or_zero :: "qimage \<Rightarrow> int \<Rightarrow> int \<Rightarrow> 8 word" where
  \<comment> \<open>what the copying loop appends for the cell \<open>(x, y)\<close>\<close>
  "cell_or_zero im x y =
     (if 0 \<le> x \<and> x < int (width im) \<and> 0 \<le> y \<and> y < int (height im)
      then pixelIndex im (nat x) (nat y) else 0)"

definition copy_cells :: "qimage \<Rightarrow> int \<Rightarrow> int \<Rightarrow> int \<Rightarrow> int \<Rightarrow> 8 word list" where
  \<comment> \<open>the copying loop of \<^verbatim>\<open>copy_selection\<close> over \<^verbatim>\<open>range(y1, y2 + 1)\<close> and
      \<^verbatim>\<open>range(x1, x2 + 1)\<close>\<close>
  "copy_cells im x1 y1 x2 y2 =
     foldl (\<lambda>acc y. foldl (\<lambda>acc x. acc @ [cell_or_zero im x y]) acc [x1..x2]) [] [y1..y2]"

definition copy_selection :: "canvas \<Rightarrow> bool \<times> canvas" where
  \<comment> \<open>a point is a pair, which Python takes as true whatever its components\<close>
  "copy_selection c =
     (case (image' c, selection_start c, selection_end c) of
        (Some im, Some (sx, sy), Some (ex, ey)) \<Rightarrow>
          (let x1 = min sx ex; y1 = min sy ey; x2 = max sx ex; y2 = max sy ey;
               w = x2 - x1 + 1; h = y2 - y1 + 1
           in (True, c\<lparr>clipboard_data := Some (copy_cells im x1 y1 x2 y2),
                        clipboard_size := Some (w, h)\<rparr>))
      | _ \<Rightarrow> (False, c))"

definition editor_copy_selection :: "canvas \<Rightarrow> bool \<times> canvas" where
  \<comment> \<open>\<^verbatim>\<open>MonkeyIslandFontEditor.copy_selection\<close>: the copy command of the window, which
      clears the selection after a copy; the boolean tells which message it shows.\<close>
  "editor_copy_selection c =
     (case copy_selection c of
        (True, c1) \<Rightarrow> (True, clear_selection c1)
      | (False, c1) \<Rightarrow> (False, c1))"

definition start_paste_mode :: "canvas \<Rightarrow> bool \<times> canvas" where
  "start_paste_mode c =
     (if \<not> truthy (clipboard_data c) \<or> clipboard_size c = None then (False, c)
      else (True, c\<lparr>paste_mode := True, paste_position := Some (0, 0)\<rparr>))"

definition paste_step :: "8 word list \<Rightarrow> int \<Rightarrow> int \<Rightarrow> int \<Rightarrow> int \<Rightarrow> qimage \<Rightarrow> int \<Rightarrow> qimage" where
  \<comment> \<open>the body of the pasting loop, for the payload cell \<open>(dx, dy)\<close>\<close>
  "paste_step data px py cw dy im dx =
     (let target_x = px + dx; target_y = py + dy
      in if 0 \<le> target_x \<and> target_x < int (width im) \<and>
            0 \<le> target_y \<and> target_y < int (height im) \<and>
            dy * cw + dx < int (length data)
         then setPixel im (nat target_x) (nat target_y) (ucast (data ! nat (dy * cw + dx)))
         else im)"

definition paste_cells :: "qimage \<Rightarrow> 8 word list \<Rightarrow> int \<Rightarrow> int \<Rightarrow> int \<Rightarrow> int \<Rightarrow> qimage" where
  \<comment> \<open>the pasting loop of \<^verbatim>\<open>commit_paste\<close> over \<^verbatim>\<open>range(ch)\<close> and \<^verbatim>\<open>range(cw)\<close>\<close>
  "paste_cells im0 data px py cw ch =
     foldl (\<lambda>im dy. foldl (paste_step data px py cw dy) im [0..cw - 1]) im0 [0..ch - 1]"

definition commit_paste :: "canvas \<Rightarrow> error + bool \<times> canvas" where
  \<comment> \<open>Unpacking a missing \<^verbatim>\<open>clipboard_size\<close> raises TypeError. Without an image
      \<^verbatim>\<open>save_state\<close> does nothing and the loop body raises AttributeError at the first
      \<^verbatim>\<open>self.image.width()\<close> it evaluates, that is once \<^verbatim>\<open>0 <= target_x\<close> holds.\<close>
  "commit_paste c =
     (if \<not> paste_mode c \<or> \<not> truthy (clipboard_data c) \<or> paste_position c = None
      then Inr (False, c)
      else (let c1 = save_state c ''Paste''
            in case (paste_position c1, clipboard_size c1, clipboard_data c1) of
                 (Some (px, py), Some (cw, ch), Some data) \<Rightarrow>
                   (case image' c1 of
                      None \<Rightarrow>
                        if 0 < ch \<and> 0 \<le> px + (cw - 1) \<and> 0 < cw then Inl AttributeError
                        else Inr (True, c1\<lparr>paste_mode := False, paste_position := None\<rparr>)
                    | Some im \<Rightarrow>
                        Inr (True, c1\<lparr>image' := Some (paste_cells im data px py cw ch),
                                       paste_mode := False, paste_position := None\<rparr>))
               | _ \<Rightarrow> Inl TypeError))"

definition cancel_paste :: "canvas \<Rightarrow> canvas" where
  "cancel_paste c = c\<lparr>paste_mode := False, paste_position := None\<rparr>"

subsection \<open>Saving\<close>

definition save_image :: "canvas \<Rightarrow> pil_image option" where
  \<comment> \<open>None where the method returns False; otherwise the picture built with
      \<^verbatim>\<open>Image.new\<close>, \<^verbatim>\<open>putpalette\<close> and \<^verbatim>\<open>putdata\<close> that is handed to the BMP writer.\<close>
  "save_image c =
     (case image' c of
        None \<Rightarrow> None
      | Some im \<Rightarrow>
          (case original_palette c of
             None \<Rightarrow> None
           | Some palette \<Rightarrow>
               if palette = [] then None
               else Some \<lparr>pil_mode = ''P'', pil_size = (width im, height im),
                           pil_palette = palette, pil_bytes = pixel_data_of im\<rparr>))"

subsection \<open>Reachable states\<close>

text \<open>
  The states the canvas can be in: the state after \<^verbatim>\<open>__init__\<close>, and every state a
  method of the canvas leaves behind when it returns, whatever its arguments. A call
  that raises ends the run.
\<close>

inductive reachable :: "canvas \<Rightarrow> bool" where
  r_init: "reachable init"
| r_load: "reachable c \<Longrightarrow> load_image c fresh opened = Inr c' \<Longrightarrow> reachable c'"
| r_press: "reachable c \<Longrightarrow> mousePressEvent c e = Inr c' \<Longrightarrow> reachable c'"
| r_move: "reachable c \<Longrightarrow> mouseMoveEvent c e = Inr c' \<Longrightarrow> reachable c'"
| r_release: "reachable c \<Longrightarrow> reachable (mouseReleaseEvent c e)"
| r_zoom: "reachable c \<Longrightarrow> reachable (set_zoom c z)"
| r_color: "reachable c \<Longrightarrow> reachable (set_color c i)"
| r_char_height: "reachable c \<Longrightarrow> reachable (set_char_height c h)"
| r_edit_mode: "reachable c \<Longrightarrow> reachable (set_edit_mode c mode)"
| r_clear: "reachable c \<Longrightarrow> reachable (clear_selection c)"
| r_copy: "reachable c \<Longrightarrow> reachable (snd (copy_selection c))"
| r_start_paste: "reachable c \<Longrightarrow> reachable (snd (start_paste_mode c))"
| r_commit: "reachable c \<Longrightarrow> commit_paste c = Inr (ok, c') \<Longrightarrow> reachable c'"
| r_cancel: "reachable c \<Longrightarrow> reachable (cancel_paste c)"
| r_save_state: "reachable c \<Longrightarrow> reachable (save_state c description)"
| r_undo: "reachable c \<Longrightarrow> reachable (snd (undo c))"
| r_redo: "reachable c \<Longrightarrow> reachable (snd (redo c))"

subsection \<open>Sequences of history operations\<close>

datatype history_op = SaveState string | Undo | Redo

fun history_step :: "canvas \<Rightarrow> history_op \<Rightarrow> canvas" where
  "history_step c (SaveState description) = save_state c description"
| "history_step c Undo = snd (undo c)"
| "history_step c Redo = snd (redo c)"

text \<open>Edits: a mutation of the buffer, each right after its \<^verbatim>\<open>save_state\<close>.\<close>

type_synonym mutation = "(nat \<times> nat \<times> 32 word) list"

definition apply_writes :: "qimage \<Rightarrow> mutation \<Rightarrow> qimage" where
  "apply_writes im m = foldl (\<lambda>im (x, y, v). setPixel im x y v) im m"

definition mutate :: "canvas \<Rightarrow> mutation \<Rightarrow> canvas" where
  \<comment> \<open>a mutation of the buffer: any series of \<^verbatim>\<open>setPixel\<close> calls on the image\<close>
  "mutate c m = (case image' c of None \<Rightarrow> c | Some im \<Rightarrow> c\<lparr>image' := Some (apply_writes im m)\<rparr>)"

definition edit :: "canvas \<Rightarrow> string \<times> mutation \<Rightarrow> canvas" where
  \<comment> \<open>a mutation right after the \<^verbatim>\<open>save_state\<close> that protects it\<close>
  "edit c e = mutate (save_state c (fst e)) (snd e)"

fun undo_n :: "nat \<Rightarrow> canvas \<Rightarrow> canvas" where
  "undo_n 0 c = c"
| "undo_n (Suc n) c = undo_n n (snd (undo c))"

fun redo_n :: "nat \<Rightarrow> canvas \<Rightarrow> canvas" where
  "redo_n 0 c = c"
| "redo_n (Suc n) c = redo_n n (snd (redo c))"

subsection \<open>Invariants of the reachable states\<close>

definition hist_inv :: "canvas \<Rightarrow> bool" where
  "hist_inv c \<longleftrightarrow>
     max_history c = 50 \<and> length (undo_stack c) + length (redo_stack c) \<le> max_history c"

definition same_size :: "qimage \<Rightarrow> qimage \<Rightarrow> bool" where
  "same_size im im' \<longleftrightarrow>
     width im' = width im \<and> height im' = height im \<and>
     length (pixels im') = length (pixels im) \<and> colortable im' = colortable im"

definition well_formed :: "qimage \<Rightarrow> bool" where
  \<comment> \<open>one cell per position, and a colour table as \<^verbatim>\<open>load_image\<close> leaves it: empty or
      with all 256 entries\<close>
  "well_formed im \<longleftrightarrow>
     length (pixels im) = width im * height im \<and>
     (colortable im = [] \<or> length (colortable im) = 256)"

definition state_inv :: "canvas \<Rightarrow> bool" where
  "state_inv c \<longleftrightarrow>
     (image' c = None \<longrightarrow>
        selection_start c = None \<and> selection_end c = None \<and> clipboard_data c = None) \<and>
     (\<forall>im. image' c = Some im \<longrightarrow>
        well_formed im \<and> (colortable im = [] \<longleftrightarrow> \<not> truthy (original_palette c))) \<and>
     (paste_mode c \<longrightarrow> truthy (clipboard_data c) \<and> paste_position c \<noteq> None) \<and>
     (\<forall>d. clipboard_data c = Some d \<longrightarrow>
        (\<exists>cw ch. clipboard_size c = Some (cw, ch) \<and> 0 < cw \<and> 0 < ch \<and>
                 int (length d) = cw * ch))"

definition entries_fit :: "nat \<Rightarrow> nat \<Rightarrow> snapshot list \<Rightarrow> bool" where
  "entries_fit w h es \<longleftrightarrow> (\<forall>e \<in> set es. snd (snd e) = (w, h) \<and> length (fst e) = w * h)"

definition color_table_of :: "int list \<Rightarrow> rgb list" where
  \<comment> \<open>the colour table that \<open>fill_color_table\<close> builds from a palette, in closed form\<close>
  "color_table_of stored_palette =
     map (\<lambda>i. (if i * 3 < length (take 768 stored_palette)
                  then take 768 stored_palette ! (i * 3) else 0,
                 if i * 3 + 1 < length (take 768 stored_palette)
                  then take 768 stored_palette ! (i * 3 + 1) else 0,
                 if i * 3 + 2 < length (take 768 stored_palette)
                  then take 768 stored_palette ! (i * 3 + 2) else 0))
       [0..<256]"

subsection \<open>Example inputs\<close>

definition two_tones :: "int list" where
  "two_tones = [0, 0, 0, 255, 255, 255]"

definition strip_1x1 :: pil_image where
  "strip_1x1 = \<lparr>pil_mode = ''P'', pil_size = (1, 1), pil_palette = two_tones, pil_bytes = [1]\<rparr>"

definition strip_2x2 :: pil_image where
  "strip_2x2 = \<lparr>pil_mode = ''P'', pil_size = (2, 2), pil_palette = two_tones,
     pil_bytes = [0, 1, 1, 0]\<rparr>"

definition grey_strip :: pil_image where
  \<comment> \<open>a 2 by 1 picture that PIL opens in mode L, as it does an indexed BMP whose palette
      is the grey ramp; the bytes are those after \<^verbatim>\<open>convert('P')\<close>\<close>
  "grey_strip = \<lparr>pil_mode = ''L'', pil_size = (2, 1), pil_palette = [], pil_bytes = [5, 7]\<rparr>"

definition image_1x1 :: qimage where
  "image_1x1 = \<lparr>width = 1, height = 1, pixels = [1], colortable = color_table_of two_tones\<rparr>"

definition image_2x2 :: qimage where
  "image_2x2 = \<lparr>width = 2, height = 2, pixels = [0, 1, 1, 0],
     colortable = color_table_of two_tones\<rparr>"

definition image_grey :: qimage where
  \<comment> \<open>the cells are what the memory held: without a colour table no byte of the file
      is stored\<close>
  "image_grey = \<lparr>width = 2, height = 1, pixels = [3, 9], colortable = []\<rparr>"

definition loaded_1x1 :: canvas where
  "loaded_1x1 = init\<lparr>image' := Some image_1x1, original_palette := Some two_tones\<rparr>"

definition loaded_2x2 :: canvas where
  "loaded_2x2 = init\<lparr>image' := Some image_2x2, original_palette := Some two_tones\<rparr>"

definition loaded_grey :: canvas where
  \<comment> \<open>the grey strip loaded first, into memory that held 3 and 9\<close>
  "loaded_grey = init\<lparr>image' := Some image_grey\<rparr>"

definition mismatched :: canvas where
  \<comment> \<open>a 1 by 1 buffer whose two stacks end in snapshots of a 2 by 1 buffer\<close>
  "mismatched = loaded_1x1\<lparr>undo_stack := [([0, 0], ''Draw'', 2, 1)],
     redo_stack := [([0, 0], ''Draw'', 2, 1)]\<rparr>"



definition selected_2x2 :: canvas where
  \<comment> \<open>the 2 by 2 strip loaded and a selection dragged from cell (1, 0) to (2, 1), which is
      outside the buffer\<close>
  "selected_2x2 = loaded_2x2\<lparr>selecting := True, selection_start := Some (1, 0),
     selection_end := Some (2, 1)\<rparr>"




section \<open>Lemmas\<close>

subsection \<open>Bytes and the colour table\<close>

lemma unat_byte_less: "unat (b :: 8 word) < 256"
  using unsigned_less [of b, where ?'a = nat] by simp

lemma unat_ucast_byte [simp]: "unat (ucast (b :: 8 word) :: 32 word) = unat b"
proof -
  have "unat b < 2 ^ 32" using unat_byte_less [of b] by simp
  then show ?thesis by (simp add: unsigned_ucast_eq take_bit_nat_eq_self)
qed

lemma ucast_ucast_byte [simp]: "(ucast (ucast (b :: 8 word) :: 32 word) :: 8 word) = b"
  by (rule ucast_up_ucast_id) (simp add: is_up)

lemma setPixel_byte:
  "256 \<le> length (colortable im) \<Longrightarrow>
     setPixel im x y (ucast (b :: 8 word))
       = (if x < width im \<and> y < height im
          then im\<lparr>pixels := (pixels im)[y * width im + x := b]\<rparr> else im)"
  using unat_byte_less [of b] by (simp add: setPixel_def)

lemma setPixel_no_table [simp]: "colortable im = [] \<Longrightarrow> setPixel im x y v = im"
  by (simp add: setPixel_def)

lemma setPixel_size [simp]:
  "width (setPixel im x y v) = width im" "height (setPixel im x y v) = height im"
  "length (pixels (setPixel im x y v)) = length (pixels im)"
  "colortable (setPixel im x y v) = colortable im"
  by (simp_all add: setPixel_def)

lemma QImage_size [simp]:
  "width (QImage w h fresh) = w" "height (QImage w h fresh) = h"
  "length (pixels (QImage w h fresh)) = w * h" "colortable (QImage w h fresh) = []"
  "pixels (QImage w h fresh) = map fresh [0..<w * h]"
  by (simp_all add: QImage_def)

lemma fill_color_table_upto:
  assumes "colortable im = []" "n \<le> 256"
  shows "foldl (\<lambda>im i. setColor im i (f i)) im [0..<n] = im\<lparr>colortable := map f [0..<n]\<rparr>"
  using assms(2)
proof (induction n)
  case 0
  show ?case using assms(1) by simp
next
  case (Suc n)
  then show ?case by (simp add: setColor_def)
qed

lemma fill_color_table_eq:
  "colortable im = [] \<Longrightarrow> fill_color_table im pal = im\<lparr>colortable := color_table_of pal\<rparr>"
  using fill_color_table_upto [of im 256]
  by (simp add: fill_color_table_def color_table_of_def Let_def)

lemma length_color_table_of [simp]: "length (color_table_of pal) = 256"
  by (simp add: color_table_of_def)

lemma color_table_of_not_Nil [simp]: "color_table_of pal \<noteq> []"
  using length_color_table_of [of pal] by (cases "color_table_of pal") simp_all

subsection \<open>The loops over the image\<close>

lemma foldl_snoc_map: "foldl (\<lambda>acc x. acc @ [f x]) acc xs = acc @ map f xs"
  by (induction xs arbitrary: acc) simp_all

lemma foldl_append_concat: "foldl (\<lambda>acc y. acc @ g y) acc ys = acc @ concat (map g ys)"
  by (induction ys arbitrary: acc) simp_all

lemma foldl_invariant:
  assumes "P s" and "\<And>s x. P s \<Longrightarrow> P (f s x)"
  shows "P (foldl f s xs)"
  using assms(1) by (induction xs arbitrary: s) (simp_all add: assms(2))

lemma foldl_unchanged:
  assumes "\<And>x. f s x = s"
  shows "foldl f s xs = s"
  by (induction xs) (simp_all add: assms)

lemma pixel_data_of_concat:
  "pixel_data_of im =
     concat (map (\<lambda>y. map (\<lambda>x. pixelIndex im x y) [0..<width im]) [0..<height im])"
  by (simp add: pixel_data_of_def foldl_snoc_map foldl_append_concat)

lemma length_concat_rows: "length (concat (map (\<lambda>y. map (f y) xs) ys)) = length ys * length xs"
  by (induction ys) simp_all

lemma nth_concat_rows:
  "i < length ys \<Longrightarrow> j < length xs \<Longrightarrow>
     concat (map (\<lambda>y. map (f y) xs) ys) ! (i * length xs + j) = f (ys ! i) (xs ! j)"
proof (induction ys arbitrary: i)
  case Nil
  then show ?case by simp
next
  case (Cons y ys)
  show ?case
  proof (cases i)
    case 0
    with Cons.prems show ?thesis by (simp add: nth_append)
  next
    case (Suc i')
    with Cons.prems have "i' < length ys" by simp
    from Cons.IH [OF this Cons.prems(2)] Suc show ?thesis
      by (simp add: nth_append add.assoc)
  qed
qed

lemma length_pixel_data_of: "length (pixel_data_of im) = width im * height im"
  by (simp add: pixel_data_of_concat length_concat_rows mult.commute)

lemma nth_pixel_data_of:
  "x < width im \<Longrightarrow> y < height im \<Longrightarrow> pixel_data_of im ! (y * width im + x) = pixelIndex im x y"
  using nth_concat_rows [of y "[0..<height im]" x "[0..<width im]" "\<lambda>y x. pixelIndex im x y"]
  by (simp add: pixel_data_of_concat)

lemma rows_take:
  "h * w \<le> length p \<Longrightarrow>
     concat (map (\<lambda>y. map (\<lambda>x. p ! (y * w + x)) [0..<w]) [0..<h]) = take (h * w) p"
proof (induction h)
  case 0
  then show ?case by simp
next
  case (Suc h)
  have row: "map (\<lambda>x. p ! (h * w + x)) [0..<w] = take w (drop (h * w) p)"
    using Suc.prems by (intro nth_equalityI) auto
  have "take (Suc h * w) p = take (h * w + w) p"
    by (simp add: add.commute)
  also have "\<dots> = take (h * w) p @ take w (drop (h * w) p)"
    by (rule take_add)
  finally have split: "take (Suc h * w) p = take (h * w) p @ take w (drop (h * w) p)" .
  have "h * w \<le> length p" using Suc.prems by simp
  then have "concat (map (\<lambda>y. map (\<lambda>x. p ! (y * w + x)) [0..<w]) [0..<h]) = take (h * w) p"
    by (rule Suc.IH)
  then show ?case
    by (simp only: upt_Suc_append [OF le0] map_append concat_append list.map concat.simps
          append_Nil2 row split)
qed

lemma pixel_data_of_pixels:
  "length (pixels im) = width im * height im \<Longrightarrow> pixel_data_of im = pixels im"
  by (simp add: pixel_data_of_concat pixelIndex_def rows_take mult.commute)

lemma cell_index_less: "x < w \<Longrightarrow> y < h \<Longrightarrow> y * w + x < w * (h::nat)"
proof -
  assume a: "x < w" "y < h"
  then have "y * w + x < Suc y * w" by simp
  also have "\<dots> \<le> h * w" using a by (intro mult_le_mono1) simp
  finally show ?thesis by (simp add: mult.commute)
qed

lemma restore_row:
  assumes "k \<le> width im" "y < height im" "width im = w" "height im = h"
    and "length (pixels im) = w * h" "length pd = w * h" "256 \<le> length (colortable im)"
  shows "foldl (\<lambda>(im, idx) x.
            (if idx < length pd then setPixel im x y (ucast (pd ! idx)) else im, idx + 1))
          (im\<lparr>pixels := take (y * w) pd @ drop (y * w) (pixels im)\<rparr>, y * w) [0..<k]
         = (im\<lparr>pixels := take (y * w + k) pd @ drop (y * w + k) (pixels im)\<rparr>, y * w + k)"
  using assms(1)
proof (induction k)
  case 0
  then show ?case by simp
next
  case (Suc k)
  let ?n = "y * w + k"
  have n: "?n < w * h"
    using Suc.prems assms(2,3,4) by (intro cell_index_less) simp_all
  have upd: "(take ?n pd @ drop ?n (pixels im))[?n := pd ! ?n]
               = take (Suc ?n) pd @ drop (Suc ?n) (pixels im)"
    using n assms(5,6)
    by (simp add: list_update_append take_Suc_conv_app_nth Cons_nth_drop_Suc [symmetric]
          min_absorb2)
  from Suc show ?case
    using n assms(2,3,4,6,7) upd by (simp add: setPixel_byte)
qed

lemma restore_rows:
  assumes "width im = w" "height im = h"
    and "length (pixels im) = w * h" "length pd = w * h" "256 \<le> length (colortable im)"
  shows "j \<le> h \<Longrightarrow>
         foldl (\<lambda>s y. foldl (\<lambda>(im, idx) x.
            (if idx < length pd then setPixel im x y (ucast (pd ! idx)) else im, idx + 1))
              s [0..<w])
          (im, 0) [0..<j]
         = (im\<lparr>pixels := take (j * w) pd @ drop (j * w) (pixels im)\<rparr>, j * w)"
proof (induction j)
  case 0
  then show ?case by simp
next
  case (Suc j)
  have "j < height im" using Suc.prems assms(2) by simp
  from restore_row [OF _ this assms(1,2,3,4,5), of w] assms(1)
  have row: "foldl (\<lambda>(im, idx) x.
            (if idx < length pd then setPixel im x j (ucast (pd ! idx)) else im, idx + 1))
          (im\<lparr>pixels := take (j * w) pd @ drop (j * w) (pixels im)\<rparr>, j * w) [0..<w]
         = (im\<lparr>pixels := take (Suc j * w) pd @ drop (Suc j * w) (pixels im)\<rparr>, Suc j * w)"
    by (simp add: add.commute)
  from Suc show ?case
    using row by simp
qed

lemma restore_pixels_eq:
  assumes "length (pixels im) = width im * height im" "length pd = width im * height im"
    and "256 \<le> length (colortable im)"
  shows "restore_pixels im pd = im\<lparr>pixels := pd\<rparr>"
  using restore_rows [OF refl refl assms, of "height im"] assms
  by (simp add: restore_pixels_def mult.commute)

lemma restore_pixels_no_table:
  assumes "colortable im = []"
  shows "restore_pixels im pd = im"
proof -
  let ?step = "\<lambda>y (im', idx) x.
     (if idx < length pd then setPixel im' x y (ucast (pd ! idx)) else im', idx + (1::nat))"
  have inner: "fst (foldl (?step y) s xs) = im" if "fst s = im" for s y xs
    using that by (rule foldl_invariant) (auto simp: assms split: prod.splits)
  have "fst (foldl (\<lambda>s y. foldl (?step y) s [0..<width im]) (im, 0) [0..<height im]) = im"
  proof (rule foldl_invariant)
    show "fst (im, 0::nat) = im" by simp
  next
    fix s :: "qimage \<times> nat" and y
    assume "fst s = im"
    then show "fst (foldl (?step y) s [0..<width im]) = im" by (rule inner)
  qed
  then show ?thesis by (simp add: restore_pixels_def)
qed

lemma copy_pixel_data_row:
  assumes "k \<le> width im" "y < height im" "width im = w" "height im = h"
    and "length (pixels im) = w * h" "w * h \<le> length pd" "256 \<le> length (colortable im)"
  shows "foldl (\<lambda>im' x. (let idx = y * w + x
                          in if idx < length pd then setPixel im' x y (ucast (pd ! idx)) else im'))
          (im\<lparr>pixels := take (y * w) pd @ drop (y * w) (pixels im)\<rparr>) [0..<k]
         = im\<lparr>pixels := take (y * w + k) pd @ drop (y * w + k) (pixels im)\<rparr>"
  using assms(1)
proof (induction k)
  case 0
  then show ?case by simp
next
  case (Suc k)
  let ?n = "y * w + k"
  have n: "?n < w * h"
    using Suc.prems assms(2,3,4) by (intro cell_index_less) simp_all
  have upd: "(take ?n pd @ drop ?n (pixels im))[?n := pd ! ?n]
               = take (Suc ?n) pd @ drop (Suc ?n) (pixels im)"
    using n assms(5,6)
    by (simp add: list_update_append take_Suc_conv_app_nth Cons_nth_drop_Suc [symmetric]
          min_absorb2)
  from Suc show ?case
    using n assms(2,3,4,6,7) upd by (simp add: setPixel_byte Let_def)
qed

lemma copy_pixel_data_rows:
  assumes "width im = w" "height im = h"
    and "length (pixels im) = w * h" "w * h \<le> length pd" "256 \<le> length (colortable im)"
  shows "j \<le> h \<Longrightarrow>
         foldl (\<lambda>im' y. foldl (\<lambda>im' x. (let idx = y * w + x
                          in if idx < length pd then setPixel im' x y (ucast (pd ! idx)) else im'))
                  im' [0..<w])
          im [0..<j]
         = im\<lparr>pixels := take (j * w) pd @ drop (j * w) (pixels im)\<rparr>"
proof (induction j)
  case 0
  then show ?case by simp
next
  case (Suc j)
  have "j < height im" using Suc.prems assms(2) by simp
  from copy_pixel_data_row [OF _ this assms(1,2,3,4,5), of w] assms(1)
  have row: "foldl (\<lambda>im' x. (let idx = j * w + x
                          in if idx < length pd then setPixel im' x j (ucast (pd ! idx)) else im'))
          (im\<lparr>pixels := take (j * w) pd @ drop (j * w) (pixels im)\<rparr>) [0..<w]
         = im\<lparr>pixels := take (Suc j * w) pd @ drop (Suc j * w) (pixels im)\<rparr>"
    by (simp add: add.commute)
  from Suc show ?case
    using row by simp
qed

lemma copy_pixel_data_eq:
  assumes "length (pixels im) = width im * height im" "width im * height im \<le> length pd"
    and "256 \<le> length (colortable im)"
  shows "copy_pixel_data im pd = im\<lparr>pixels := take (width im * height im) pd\<rparr>"
  using copy_pixel_data_rows [OF refl refl assms, of "height im"] assms
  by (simp add: copy_pixel_data_def mult.commute)

lemma copy_pixel_data_no_table:
  assumes "colortable im = []"
  shows "copy_pixel_data im pd = im"
proof -
  let ?step = "\<lambda>y im' x. (let idx = y * width im + x
                 in if idx < length pd then setPixel im' x y (ucast (pd ! idx)) else im')"
  have inner: "foldl (?step y) im xs = im" for y xs
    by (rule foldl_unchanged) (simp add: assms Let_def)
  show ?thesis
    unfolding copy_pixel_data_def by (rule foldl_unchanged) (rule inner)
qed

subsection \<open>The history stacks of the reachable states\<close>

lemma draw_pixel_history:
  "draw_pixel c pos = Inr c' \<Longrightarrow>
     undo_stack c' = undo_stack c \<and> redo_stack c' = redo_stack c \<and> max_history c' = max_history c"
  by (auto simp: draw_pixel_def Let_def split: option.splits if_splits sum.splits)

lemma save_state_history:
  "hist_inv c \<Longrightarrow> hist_inv (save_state c d)"
  by (auto simp: hist_inv_def save_state_def Let_def split: option.splits)

lemma undo_history: "hist_inv c \<Longrightarrow> hist_inv (snd (undo c))"
  by (cases "undo_stack c" rule: rev_cases)
     (auto simp: hist_inv_def undo_def Let_def split: option.splits prod.splits)

lemma redo_history: "hist_inv c \<Longrightarrow> hist_inv (snd (redo c))"
  by (cases "redo_stack c" rule: rev_cases)
     (auto simp: hist_inv_def redo_def Let_def split: option.splits prod.splits)

lemma press_history: "hist_inv c \<Longrightarrow> mousePressEvent c e = Inr c' \<Longrightarrow> hist_inv c'"
proof -
  assume h: "hist_inv c" and p: "mousePressEvent c e = Inr c'"
  have d: "hist_inv ((save_state c ''Draw'')\<lparr>drawing := True\<rparr>)"
    using save_state_history [OF h, of "''Draw''"] by (simp add: hist_inv_def)
  show ?thesis
    using p h d
    by (auto simp: mousePressEvent_def Let_def hist_inv_def
          split: option.splits if_splits dest!: draw_pixel_history)
qed

lemma move_history: "hist_inv c \<Longrightarrow> mouseMoveEvent c e = Inr c' \<Longrightarrow> hist_inv c'"
  by (auto simp: mouseMoveEvent_def Let_def hist_inv_def
        split: option.splits if_splits dest!: draw_pixel_history)

lemma commit_history: "hist_inv c \<Longrightarrow> commit_paste c = Inr (ok, c') \<Longrightarrow> hist_inv c'"
  using save_state_history [of c "''Paste''"]
  by (auto simp: commit_paste_def Let_def hist_inv_def
        split: option.splits if_splits prod.splits)

lemma reachable_hist_inv: "reachable c \<Longrightarrow> hist_inv c"
proof (induction rule: reachable.induct)
  case r_init
  show ?case by (simp add: hist_inv_def init_def)
next
  case (r_load c fresh opened c')
  then show ?case
    by (auto simp: load_image_def hist_inv_def Let_def split: option.splits prod.splits)
next
  case (r_press c e c')
  then show ?case by (auto intro: press_history)
next
  case (r_move c e c')
  then show ?case by (auto intro: move_history)
next
  case (r_commit c ok c')
  then show ?case by (auto intro: commit_history)
next
  case (r_save_state c description)
  then show ?case by (simp add: save_state_history)
next
  case (r_undo c)
  then show ?case by (simp add: undo_history)
next
  case (r_redo c)
  then show ?case by (simp add: redo_history)
qed (auto simp: hist_inv_def mouseReleaseEvent_def set_zoom_def set_color_def
      set_char_height_def set_edit_mode_def clear_selection_def copy_selection_def
      start_paste_mode_def cancel_paste_def Let_def split: option.splits prod.splits)

lemma history_step_reachable: "reachable c \<Longrightarrow> reachable (history_step c op)"
  by (cases op) (auto intro: reachable.intros)

lemma history_run_reachable: "reachable c \<Longrightarrow> reachable (foldl history_step c ops)"
  by (induction ops arbitrary: c) (auto intro: history_step_reachable)

lemma save_state_full:
  assumes "image' c = Some im" "length (undo_stack c) = max_history c" "0 < max_history c"
  shows "undo_stack (save_state c d)
         = tl (undo_stack c) @ [(pixel_data_of im, d, width im, height im)]"
  using assms by (cases "undo_stack c") (auto simp: save_state_def Let_def)

subsection \<open>Undoing and redoing a run of edits\<close>

lemma entries_fit_simps [simp]:
  "entries_fit w h []"
  "entries_fit w h (es @ es') \<longleftrightarrow> entries_fit w h es \<and> entries_fit w h es'"
  "entries_fit w h [(p, d, w', h')] \<longleftrightarrow> w' = w \<and> h' = h \<and> length p = w * h"
  by (auto simp: entries_fit_def)

lemma hd_snoc_snoc: "hd ((xs @ [b]) @ [p]) = hd (xs @ [b])"
  by (cases xs) simp_all

lemma tl_snoc_snoc: "tl ((xs @ [b]) @ [p]) = tl (xs @ [b]) @ [p]"
  by (cases xs) simp_all

lemma qimage_pixels_eq:
  "width im' = width im \<Longrightarrow> height im' = height im \<Longrightarrow> colortable im' = colortable im \<Longrightarrow>
     im'\<lparr>pixels := pixels im\<rparr> = (im :: qimage)"
  by (cases im; cases im') simp

lemma undo_top:
  assumes "image' c = Some im" "length (pixels im) = width im * height im"
    and "undo_stack c = us @ [(p, d, width im, height im)]" "length p = width im * height im"
    and "256 \<le> length (colortable im)"
  shows "image' (snd (undo c)) = Some (im\<lparr>pixels := p\<rparr>)"
    and "undo_stack (snd (undo c)) = us"
    and "redo_stack (snd (undo c)) = redo_stack c @ [(pixels im, ''Current'', width im, height im)]"
  using assms by (simp_all add: undo_def Let_def pixel_data_of_pixels restore_pixels_eq)

lemma redo_top:
  assumes "image' c = Some im" "length (pixels im) = width im * height im"
    and "redo_stack c = rs @ [(p, d, width im, height im)]" "length p = width im * height im"
    and "256 \<le> length (colortable im)"
  shows "image' (snd (redo c)) = Some (im\<lparr>pixels := p\<rparr>)"
    and "redo_stack (snd (redo c)) = rs"
    and "undo_stack (snd (redo c)) = undo_stack c @ [(pixels im, ''Current'', width im, height im)]"
  using assms by (simp_all add: redo_def Let_def pixel_data_of_pixels restore_pixels_eq)

lemma undo_n_entries:
  assumes "entries_fit w h es" "image' c = Some im" "width im = w" "height im = h"
    "length (pixels im) = w * h" "undo_stack c = us @ es" "256 \<le> length (colortable im)"
  shows "image' (undo_n (length es) c) = Some (im\<lparr>pixels := hd (map fst es @ [pixels im])\<rparr>) \<and>
         undo_stack (undo_n (length es) c) = us \<and>
         redo_stack (undo_n (length es) c)
           = redo_stack c @ rev (map (\<lambda>p. (p, ''Current'', w, h)) (tl (map fst es @ [pixels im])))"
  using assms
proof (induction es arbitrary: c im rule: rev_induct)
  case Nil
  then show ?case by simp
next
  case (snoc e es)
  obtain p d where e: "e = (p, d, w, h)" and p: "length p = w * h"
    using snoc.prems(1) by (cases e) auto
  let ?c1 = "snd (undo c)" and ?im1 = "im\<lparr>pixels := p\<rparr>"
  have st: "undo_stack c = (us @ es) @ [(p, d, width im, height im)]"
    using snoc.prems e by simp
  have wf: "length (pixels im) = width im * height im" "length p = width im * height im"
    using snoc.prems p by simp_all
  note top = undo_top [OF snoc.prems(2) wf(1) st wf(2) snoc.prems(7)]
  have fit: "entries_fit w h es" using snoc.prems(1) by simp
  have ih: "image' (undo_n (length es) ?c1) = Some (?im1\<lparr>pixels := hd (map fst es @ [pixels ?im1])\<rparr>) \<and>
         undo_stack (undo_n (length es) ?c1) = us \<and>
         redo_stack (undo_n (length es) ?c1)
           = redo_stack ?c1 @ rev (map (\<lambda>p. (p, ''Current'', w, h)) (tl (map fst es @ [pixels ?im1])))"
    using snoc.prems p top by (intro snoc.IH [OF fit]) simp_all
  show ?case
    using ih top(3) snoc.prems(3,4)
    by (simp add: e hd_snoc_snoc [simplified] tl_snoc_snoc [simplified])
qed

lemma redo_n_entries:
  assumes "entries_fit w h es" "image' c = Some im" "width im = w" "height im = h"
    "length (pixels im) = w * h" "redo_stack c = rs @ es" "256 \<le> length (colortable im)"
  shows "image' (redo_n (length es) c) = Some (im\<lparr>pixels := hd (map fst es @ [pixels im])\<rparr>) \<and>
         redo_stack (redo_n (length es) c) = rs \<and>
         undo_stack (redo_n (length es) c)
           = undo_stack c @ rev (map (\<lambda>p. (p, ''Current'', w, h)) (tl (map fst es @ [pixels im])))"
  using assms
proof (induction es arbitrary: c im rule: rev_induct)
  case Nil
  then show ?case by simp
next
  case (snoc e es)
  obtain p d where e: "e = (p, d, w, h)" and p: "length p = w * h"
    using snoc.prems(1) by (cases e) auto
  let ?c1 = "snd (redo c)" and ?im1 = "im\<lparr>pixels := p\<rparr>"
  have st: "redo_stack c = (rs @ es) @ [(p, d, width im, height im)]"
    using snoc.prems e by simp
  have wf: "length (pixels im) = width im * height im" "length p = width im * height im"
    using snoc.prems p by simp_all
  note top = redo_top [OF snoc.prems(2) wf(1) st wf(2) snoc.prems(7)]
  have fit: "entries_fit w h es" using snoc.prems(1) by simp
  have ih: "image' (redo_n (length es) ?c1) = Some (?im1\<lparr>pixels := hd (map fst es @ [pixels ?im1])\<rparr>) \<and>
         redo_stack (redo_n (length es) ?c1) = rs \<and>
         undo_stack (redo_n (length es) ?c1)
           = undo_stack ?c1 @ rev (map (\<lambda>p. (p, ''Current'', w, h)) (tl (map fst es @ [pixels ?im1])))"
    using snoc.prems p top by (intro snoc.IH [OF fit]) simp_all
  show ?case
    using ih top(3) snoc.prems(3,4)
    by (simp add: e hd_snoc_snoc [simplified] tl_snoc_snoc [simplified])
qed

lemma apply_writes_size [simp]:
  "width (apply_writes im m) = width im" "height (apply_writes im m) = height im"
  "length (pixels (apply_writes im m)) = length (pixels im)"
  "colortable (apply_writes im m) = colortable im"
  unfolding apply_writes_def
  by (induction m arbitrary: im) (simp_all split: prod.splits)

lemma edit_stack:
  assumes "image' c = Some im" "length (pixels im) = width im * height im"
    and "undo_stack c = us @ ss" "Suc (length ss) \<le> max_history c"
  shows "\<exists>us'. undo_stack (edit c e) = us' @ ss @ [(pixels im, fst e, width im, height im)]"
    and "image' (edit c e) = Some (apply_writes im (snd e))"
    and "max_history (edit c e) = max_history c"
proof -
  show "image' (edit c e) = Some (apply_writes im (snd e))"
    and "max_history (edit c e) = max_history c"
    using assms(1) by (simp_all add: edit_def mutate_def save_state_def Let_def)
  let ?s = "(pixels im, fst e, width im, height im)"
  have st: "undo_stack (edit c e)
      = (if length (us @ ss @ [?s]) > max_history c then tl (us @ ss @ [?s]) else us @ ss @ [?s])"
    using assms(1,2,3)
    by (simp add: edit_def mutate_def save_state_def Let_def pixel_data_of_pixels)
  show "\<exists>us'. undo_stack (edit c e) = us' @ ss @ [?s]"
  proof (cases "length (us @ ss @ [?s]) > max_history c")
    case True
    then have "us \<noteq> []" using assms(4) by auto
    then have "tl (us @ ss @ [?s]) = tl us @ ss @ [?s]" by simp
    with True st show ?thesis by auto
  next
    case False
    with st show ?thesis by auto
  qed
qed

lemma edits_stack:
  assumes "image' c = Some im" "length (pixels im) = width im * height im"
    and "length es \<le> max_history c"
  shows "\<exists>us ss im'. undo_stack (foldl edit c es) = us @ ss \<and> length ss = length es \<and>
           entries_fit (width im) (height im) ss \<and>
           hd (map fst ss @ [pixels im']) = pixels im \<and>
           image' (foldl edit c es) = Some im' \<and>
           width im' = width im \<and> height im' = height im \<and>
           length (pixels im') = width im * height im \<and>
           colortable im' = colortable im \<and>
           max_history (foldl edit c es) = max_history c"
  using assms(3)
proof (induction es rule: rev_induct)
  case Nil
  show ?case using assms(1,2) by simp
next
  case (snoc e es)
  then obtain us ss im' where
    st: "undo_stack (foldl edit c es) = us @ ss" and len: "length ss = length es"
    and fit: "entries_fit (width im) (height im) ss"
    and first: "hd (map fst ss @ [pixels im']) = pixels im"
    and img: "image' (foldl edit c es) = Some im'"
    and size: "width im' = width im" "height im' = height im"
      "length (pixels im') = width im * height im" "colortable im' = colortable im"
    and mh: "max_history (foldl edit c es) = max_history c"
    by auto
  let ?c = "foldl edit c es"
  have wf': "length (pixels im') = width im' * height im'" using size by simp
  have room: "Suc (length ss) \<le> max_history ?c" using snoc.prems len mh by simp
  from edit_stack [OF img wf' st room, of e]
  obtain us' where
    st': "undo_stack (edit ?c e) = us' @ ss @ [(pixels im', fst e, width im', height im')]"
    and img': "image' (edit ?c e) = Some (apply_writes im' (snd e))"
    and mh': "max_history (edit ?c e) = max_history ?c"
    by auto
  let ?ss = "ss @ [(pixels im', fst e, width im', height im')]"
  have "hd (map fst ?ss @ [pixels (apply_writes im' (snd e))]) = pixels im"
    using first by (simp add: hd_snoc_snoc [simplified])
  moreover have "entries_fit (width im) (height im) ?ss"
    using fit size by simp
  ultimately show ?case
    using st' img' mh' mh len size
    by (intro exI [of _ us'] exI [of _ ?ss] exI [of _ "apply_writes im' (snd e)"]) simp
qed

lemma apply_writes_no_table: "colortable im = [] \<Longrightarrow> apply_writes im m = im"
  unfolding apply_writes_def by (induction m) (simp_all split: prod.splits)

lemma edits_no_table:
  "image' c = Some im \<Longrightarrow> colortable im = [] \<Longrightarrow> image' (foldl edit c es) = Some im"
proof (induction es arbitrary: c)
  case Nil
  then show ?case by simp
next
  case (Cons e es)
  have "image' (edit c e) = Some im"
    using Cons.prems
    by (simp add: edit_def mutate_def save_state_def Let_def apply_writes_no_table)
  then show ?case using Cons by simp
qed

lemma undo_no_table:
  "image' c = Some im \<Longrightarrow> colortable im = [] \<Longrightarrow> image' (snd (undo c)) = Some im"
  by (simp add: undo_def Let_def restore_pixels_no_table split: prod.splits)

lemma redo_no_table:
  "image' c = Some im \<Longrightarrow> colortable im = [] \<Longrightarrow> image' (snd (redo c)) = Some im"
  by (simp add: redo_def Let_def restore_pixels_no_table split: prod.splits)

lemma undo_n_no_table:
  "image' c = Some im \<Longrightarrow> colortable im = [] \<Longrightarrow> image' (undo_n n c) = Some im"
  by (induction n arbitrary: c) (simp_all add: undo_no_table)

lemma redo_n_no_table:
  "image' c = Some im \<Longrightarrow> colortable im = [] \<Longrightarrow> image' (redo_n n c) = Some im"
  by (induction n arbitrary: c) (simp_all add: redo_no_table)

subsection \<open>Pasting and copying cell by cell\<close>



lemma same_size_refl [simp]: "same_size im im"
  by (simp add: same_size_def)

lemma same_size_setPixel [simp]: "same_size im (setPixel im' x y v) = same_size im im'"
  by (simp add: same_size_def)

lemma restore_pixels_size: "same_size im (restore_pixels im pd)"
proof -
  let ?step = "\<lambda>y (im', idx) x.
     (if idx < length pd then setPixel im' x y (ucast (pd ! idx)) else im', idx + (1::nat))"
  have inner: "same_size im (fst (foldl (?step y) s xs))" if "same_size im (fst s)" for s y xs
    using that by (rule foldl_invariant) (auto split: prod.splits)
  have "same_size im (fst (foldl (\<lambda>s y. foldl (?step y) s [0..<width im]) (im, 0) [0..<height im]))"
  proof (rule foldl_invariant)
    show "same_size im (fst (im, 0::nat))" by simp
  next
    fix s :: "qimage \<times> nat" and y
    assume "same_size im (fst s)"
    then show "same_size im (fst (foldl (?step y) s [0..<width im]))" by (rule inner)
  qed
  then show ?thesis by (simp add: restore_pixels_def)
qed



lemma paste_cells_steps:
  "paste_cells im data px py cw ch
     = foldl (\<lambda>im dy. foldl (paste_step data px py cw dy) im [0..cw - 1]) im [0..ch - 1]"
  by (simp add: paste_cells_def)


lemma paste_step_size [simp]: "same_size im (paste_step data px py cw dy im' dx) = same_size im im'"
  by (simp add: paste_step_def Let_def)

lemma paste_cells_size: "same_size im (paste_cells im data px py cw ch)"
proof -
  have inner: "same_size im (foldl (paste_step data px py cw dy) s xs)" if "same_size im s" for s dy xs
    using that by (rule foldl_invariant) simp
  show ?thesis
    unfolding paste_cells_steps
  proof (rule foldl_invariant)
    show "same_size im im" by simp
  next
    fix s dy
    assume "same_size im s"
    then show "same_size im (foldl (paste_step data px py cw dy) s [0..cw - 1])" by (rule inner)
  qed
qed




lemma restore_pixels_sizes [simp]:
  "width (restore_pixels im pd) = width im" "height (restore_pixels im pd) = height im"
  "length (pixels (restore_pixels im pd)) = length (pixels im)"
  "colortable (restore_pixels im pd) = colortable im"
  using restore_pixels_size [of im pd] by (simp_all add: same_size_def)

lemma paste_cells_sizes [simp]:
  "width (paste_cells im data px py cw ch) = width im"
  "height (paste_cells im data px py cw ch) = height im"
  "length (pixels (paste_cells im data px py cw ch)) = length (pixels im)"
  "colortable (paste_cells im data px py cw ch) = colortable im"
  using paste_cells_size [of im data px py cw ch] by (simp_all add: same_size_def)

lemma copy_pixel_data_size: "same_size im (copy_pixel_data im pd)"
proof -
  let ?step = "\<lambda>y im' x. (let idx = y * width im + x
                 in if idx < length pd then setPixel im' x y (ucast (pd ! idx)) else im')"
  have inner: "same_size im (foldl (?step y) s xs)" if "same_size im s" for s y xs
    using that by (rule foldl_invariant) (simp add: Let_def)
  show ?thesis
    unfolding copy_pixel_data_def
  proof (rule foldl_invariant)
    show "same_size im im" by simp
  next
    fix s y
    assume "same_size im s"
    then show "same_size im (foldl (?step y) s [0..<width im])" by (rule inner)
  qed
qed

lemma copy_pixel_data_sizes [simp]:
  "width (copy_pixel_data im pd) = width im" "height (copy_pixel_data im pd) = height im"
  "length (pixels (copy_pixel_data im pd)) = length (pixels im)"
  "colortable (copy_pixel_data im pd) = colortable im"
  using copy_pixel_data_size [of im pd] by (simp_all add: same_size_def)

lemma paste_step_no_table [simp]:
  "colortable im = [] \<Longrightarrow> paste_step data px py cw dy im dx = im"
  by (simp add: paste_step_def Let_def)


lemma copy_cells_rows:
  "copy_cells im x1 y1 x2 y2 = concat (map (\<lambda>y. map (\<lambda>x. cell_or_zero im x y) [x1..x2]) [y1..y2])"
  by (simp add: copy_cells_def foldl_snoc_map foldl_append_concat)

lemma length_copy_cells:
  "length (copy_cells im x1 y1 x2 y2) = nat (y2 - y1 + 1) * nat (x2 - x1 + 1)"
  by (simp add: copy_cells_rows length_concat_rows)

lemma nth_copy_cells:
  assumes "0 \<le> dx" "dx < x2 - x1 + 1" "0 \<le> dy" "dy < y2 - y1 + 1"
  shows "copy_cells im x1 y1 x2 y2 ! nat (dy * (x2 - x1 + 1) + dx) = cell_or_zero im (x1 + dx) (y1 + dy)"
proof -
  let ?xs = "[x1..x2]" and ?ys = "[y1..y2]"
  have lx: "length ?xs = nat (x2 - x1 + 1)" and ly: "length ?ys = nat (y2 - y1 + 1)"
    by simp_all
  have i: "nat dy < length ?ys" and j: "nat dx < length ?xs"
    using assms by simp_all
  have idx: "nat (dy * (x2 - x1 + 1) + dx) = nat dy * length ?xs + nat dx"
    using assms by (simp add: nat_add_distrib nat_mult_distrib)
  have "?xs ! nat dx = x1 + dx" "?ys ! nat dy = y1 + dy"
    using assms by (simp_all add: nth_upto)
  with nth_concat_rows [OF i j, of "\<lambda>y x. cell_or_zero im x y"] show ?thesis
    unfolding copy_cells_rows idx by simp
qed

lemma copy_cells_truthy:
  "truthy (Some (copy_cells im (min sx ex) (min sy ey) (max sx ex) (max sy ey)))"
proof -
  have "0 < length (copy_cells im (min sx ex) (min sy ey) (max sx ex) (max sy ey))"
    unfolding length_copy_cells by (simp add: min_def max_def)
  then show ?thesis by (simp add: truthy_def)
qed

subsection \<open>The shape of the reachable states\<close>

lemma well_formed_same_size: "same_size im im' \<Longrightarrow> well_formed im' = well_formed im"
  by (simp add: same_size_def well_formed_def)

lemma well_formed_kept [simp]:
  "well_formed (setPixel im x y v) = well_formed im"
  "well_formed (restore_pixels im pd) = well_formed im"
  "well_formed (paste_cells im data px py cw ch) = well_formed im"
  "well_formed (copy_pixel_data im pd) = well_formed im"
  "well_formed (apply_writes im m) = well_formed im"
  by (simp_all add: well_formed_def)

lemma state_inv_history [simp]:
  "state_inv (c\<lparr>undo_stack := us\<rparr>) = state_inv c"
  "state_inv (c\<lparr>redo_stack := rs\<rparr>) = state_inv c"
  "state_inv (c\<lparr>drawing := b\<rparr>) = state_inv c"
  "state_inv (c\<lparr>selecting := b\<rparr>) = state_inv c"
  "state_inv (c\<lparr>paste_dragging := b\<rparr>) = state_inv c"
  "state_inv (c\<lparr>zoom_level := z\<rparr>) = state_inv c"
  "state_inv (c\<lparr>current_color_index := i\<rparr>) = state_inv c"
  "state_inv (c\<lparr>char_height := h\<rparr>) = state_inv c"
  "state_inv (c\<lparr>edit_mode := m\<rparr>) = state_inv c"
  by (simp_all add: state_inv_def)

lemma state_inv_image:
  "state_inv c \<Longrightarrow> image' c = Some im \<Longrightarrow> same_size im im' \<Longrightarrow>
     state_inv (c\<lparr>image' := Some im'\<rparr>)"
  by (auto simp: state_inv_def same_size_def well_formed_def)

lemma save_state_inv: "state_inv c \<Longrightarrow> state_inv (save_state c d)"
  by (simp add: save_state_def Let_def split: option.splits)

lemma draw_pixel_inv: "state_inv c \<Longrightarrow> draw_pixel c pos = Inr c' \<Longrightarrow> state_inv c'"
  by (auto simp: draw_pixel_def Let_def split: option.splits if_splits sum.splits
        intro!: state_inv_image)

lemma undo_inv: "state_inv c \<Longrightarrow> state_inv (snd (undo c))"
  by (auto simp: undo_def Let_def restore_pixels_size split: option.splits prod.splits
        intro!: state_inv_image [where c = "c\<lparr>redo_stack := rs, undo_stack := us\<rparr>" for rs us, simplified])

lemma redo_inv: "state_inv c \<Longrightarrow> state_inv (snd (redo c))"
  by (auto simp: redo_def Let_def restore_pixels_size split: option.splits prod.splits
        intro!: state_inv_image [where c = "c\<lparr>undo_stack := us, redo_stack := rs\<rparr>" for rs us, simplified])

lemma load_image_result:
  assumes "load_image c fresh (Some p) = Inr c'" "pil_size p = (w, h)"
    and "pal = (if pil_mode p = ''P'' then Some (pil_palette p) else original_palette c)"
  shows "\<exists>im.
    c' = c\<lparr>original_palette := pal, char_height := detect_char_height h,
             image' := Some im, undo_stack := [], redo_stack := []\<rparr> \<and>
    width im = w \<and> height im = h \<and> length (pixels im) = w * h \<and>
    (truthy pal \<longrightarrow> colortable im = color_table_of (the pal)) \<and>
    (truthy pal \<longrightarrow> w * h \<le> length (pil_bytes p) \<longrightarrow> pixels im = take (w * h) (pil_bytes p)) \<and>
    (\<not> truthy pal \<longrightarrow> colortable im = []) \<and>
    (\<not> truthy pal \<longrightarrow> pixels im = map fresh [0..<w * h])"
proof -
  define im1 where "im1 = (case pal of None \<Rightarrow> QImage w h fresh
     | Some q \<Rightarrow> if q = [] then QImage w h fresh else fill_color_table (QImage w h fresh) q)"
  define im where "im = copy_pixel_data im1 (pil_bytes p)"
  have c': "c' = c\<lparr>original_palette := pal, char_height := detect_char_height h,
             image' := Some im, undo_stack := [], redo_stack := []\<rparr>"
    using assms by (simp add: load_image_def im1_def im_def Let_def)
  have full: "im1 = (QImage w h fresh)\<lparr>colortable := color_table_of (the pal)\<rparr>" if "truthy pal"
    using that by (cases pal) (simp_all add: im1_def truthy_def fill_color_table_eq)
  have empty: "im1 = QImage w h fresh" if "\<not> truthy pal"
    using that by (cases pal) (simp_all add: im1_def truthy_def)
  have size: "width im = w" "height im = h" "length (pixels im) = w * h"
    by (cases "truthy pal"; simp add: im_def full empty)+
  have t1: "colortable im = color_table_of (the pal)" if "truthy pal"
    using that by (simp add: im_def full)
  have t2: "pixels im = take (w * h) (pil_bytes p)" if "truthy pal" "w * h \<le> length (pil_bytes p)"
    using that by (simp add: im_def full copy_pixel_data_eq)
  have e1: "colortable im = []" if "\<not> truthy pal"
    using that by (simp add: im_def empty)
  have e2: "pixels im = map fresh [0..<w * h]" if "\<not> truthy pal"
    using that by (simp add: im_def empty copy_pixel_data_no_table)
  show ?thesis
    using c' size t1 t2 e1 e2 by (intro exI [of _ im]) simp
qed

lemma load_image_inv:
  assumes "state_inv c" "load_image c fresh opened = Inr c'"
  shows "state_inv c'"
proof -
  from assms(2) obtain p where p: "opened = Some p"
    by (cases opened) (simp_all add: load_image_def)
  obtain w h where wh: "pil_size p = (w, h)" by (cases "pil_size p")
  define pal where "pal = (if pil_mode p = ''P'' then Some (pil_palette p) else original_palette c)"
  from load_image_result [OF assms(2) [unfolded p] wh pal_def] obtain im where
    c': "c' = c\<lparr>original_palette := pal, char_height := detect_char_height h,
             image' := Some im, undo_stack := [], redo_stack := []\<rparr>"
    and size: "width im = w" "height im = h" "length (pixels im) = w * h"
    and full: "truthy pal \<longrightarrow> colortable im = color_table_of (the pal)"
    and empty: "\<not> truthy pal \<longrightarrow> colortable im = []"
    by (elim exE conjE)
  have "well_formed im" "colortable im = [] \<longleftrightarrow> \<not> truthy pal"
    using size full empty by (cases "truthy pal"; simp add: well_formed_def)+
  then show ?thesis
    using assms(1) unfolding c' state_inv_def by simp
qed

lemma press_inv: "state_inv c \<Longrightarrow> mousePressEvent c e = Inr c' \<Longrightarrow> state_inv c'"
proof -
  assume inv: "state_inv c" and p: "mousePressEvent c e = Inr c'"
  have d: "state_inv ((save_state c ''Draw'')\<lparr>drawing := True\<rparr>)"
    using inv by (simp add: save_state_inv)
  show ?thesis
  proof (cases "image' c \<noteq> None \<and> ev_left e \<and> \<not> paste_mode c \<and>
                \<not> (edit_mode c = ''select'' \<or> ev_shift e) \<and> edit_mode c = ''draw''")
    case True
    with p have "draw_pixel ((save_state c ''Draw'')\<lparr>drawing := True\<rparr>) (ev_pos e) = Inr c'"
      by (auto simp: mousePressEvent_def)
    with d show ?thesis by (rule draw_pixel_inv)
  next
    case False
    with p inv show ?thesis
      by (auto simp: mousePressEvent_def Let_def state_inv_def split: option.splits if_splits)
  qed
qed

lemma move_inv: "state_inv c \<Longrightarrow> mouseMoveEvent c e = Inr c' \<Longrightarrow> state_inv c'"
proof -
  assume inv: "state_inv c" and p: "mouseMoveEvent c e = Inr c'"
  show ?thesis
  proof (cases "image' c \<noteq> None \<and> zoom_level c \<noteq> 0 \<and> \<not> selecting c \<and> \<not> paste_dragging c \<and> drawing c")
    case True
    with p have "draw_pixel c (ev_pos e) = Inr c'"
      by (auto simp: mouseMoveEvent_def Let_def)
    with inv show ?thesis by (rule draw_pixel_inv)
  next
    case False
    with p inv show ?thesis
      by (auto simp: mouseMoveEvent_def Let_def state_inv_def split: option.splits if_splits)
  qed
qed

lemma copy_selection_inv: "state_inv c \<Longrightarrow> state_inv (snd (copy_selection c))"
  by (auto simp: copy_selection_def Let_def state_inv_def length_copy_cells copy_cells_truthy
        nat_mult_distrib mult.commute split: option.splits prod.splits)

lemma commit_paste_inv: "state_inv c \<Longrightarrow> commit_paste c = Inr (ok, c') \<Longrightarrow> state_inv c'"
proof -
  assume inv: "state_inv c" and p: "commit_paste c = Inr (ok, c')"
  let ?c1 = "save_state c ''Paste''"
  have inv1: "state_inv ?c1" using inv by (rule save_state_inv)
  show ?thesis
  proof (cases "\<not> paste_mode c \<or> \<not> truthy (clipboard_data c) \<or> paste_position c = None")
    case True
    with p inv show ?thesis by (simp add: commit_paste_def)
  next
    case False
    with p inv1 show ?thesis
      by (auto simp: commit_paste_def Let_def state_inv_def truthy_def
            split: option.splits prod.splits if_splits)
  qed
qed

lemma reachable_state_inv: "reachable c \<Longrightarrow> state_inv c"
proof (induction rule: reachable.induct)
  case r_init
  show ?case by (simp add: state_inv_def init_def)
next
  case (r_load c fresh opened c')
  then show ?case by (auto intro: load_image_inv)
next
  case (r_press c e c')
  then show ?case by (auto intro: press_inv)
next
  case (r_move c e c')
  then show ?case by (auto intro: move_inv)
next
  case (r_copy c)
  then show ?case by (simp add: copy_selection_inv)
next
  case (r_commit c ok c')
  then show ?case by (auto intro: commit_paste_inv)
next
  case (r_save_state c description)
  then show ?case by (simp add: save_state_inv)
next
  case (r_undo c)
  then show ?case by (simp add: undo_inv)
next
  case (r_redo c)
  then show ?case by (simp add: redo_inv)
next
  case (r_start_paste c)
  then show ?case
    by (auto simp: start_paste_mode_def state_inv_def)
next
  case (r_cancel c)
  then show ?case
    by (auto simp: cancel_paste_def state_inv_def)
next
  case (r_clear c)
  then show ?case
    by (auto simp: clear_selection_def state_inv_def)
next
  case (r_edit_mode c mode)
  then show ?case
    by (auto simp: set_edit_mode_def clear_selection_def Let_def state_inv_def)
qed (simp_all add: mouseReleaseEvent_def set_zoom_def set_color_def set_char_height_def)

subsection \<open>The example inputs\<close>

lemma load_strip_1x1: "load_image init ((!) [0]) (Some strip_1x1) = Inr loaded_1x1"
  by (simp add: load_image_def strip_1x1_def loaded_1x1_def image_1x1_def init_def
        detect_char_height_def two_tones_def fill_color_table_eq copy_pixel_data_eq QImage_def)

lemma load_strip_2x2: "load_image init ((!) [0, 0, 0, 0]) (Some strip_2x2) = Inr loaded_2x2"
  by (simp add: load_image_def strip_2x2_def loaded_2x2_def image_2x2_def init_def
        detect_char_height_def two_tones_def fill_color_table_eq copy_pixel_data_eq QImage_def)

lemma load_grey_strip: "load_image init ((!) [3, 9]) (Some grey_strip) = Inr loaded_grey"
  by (simp add: load_image_def grey_strip_def loaded_grey_def image_grey_def init_def
        detect_char_height_def copy_pixel_data_no_table QImage_def numeral_2_eq_2)



lemma reachable_loaded_1x1: "reachable loaded_1x1"
  by (rule r_load [OF r_init load_strip_1x1])



lemma reachable_selected_2x2: "reachable selected_2x2"
proof -
  let ?s1 = "loaded_2x2\<lparr>selecting := True, selection_start := Some (1, 0),
               selection_end := Some (1, 0)\<rparr>"
  have r0: "reachable loaded_2x2"
    by (rule r_load [OF r_init load_strip_2x2])
  have "mousePressEvent loaded_2x2 \<lparr>ev_left = True, ev_pos = (20, 0), ev_shift = True\<rparr> = Inr ?s1"
    by (simp add: mousePressEvent_def loaded_2x2_def init_def)
  then have r1: "reachable ?s1"
    by (rule r_press [OF r0])
  have "mouseMoveEvent ?s1 \<lparr>ev_left = True, ev_pos = (40, 20), ev_shift = True\<rparr> = Inr selected_2x2"
    by (simp add: mouseMoveEvent_def selected_2x2_def loaded_2x2_def init_def)
  then show ?thesis
    by (rule r_move [OF r1])
qed

lemma copy_selected_2x2:
  "copy_selection selected_2x2
     = (True, selected_2x2\<lparr>clipboard_data := Some [1, 0, 0, 0], clipboard_size := Some (2, 2)\<rparr>)"
  by (simp add: copy_selection_def copy_cells_def cell_or_zero_def pixelIndex_def selected_2x2_def
        loaded_2x2_def image_2x2_def init_def upto.simps)

lemma editor_copy_selected_2x2:
  "editor_copy_selection selected_2x2
     = (True, selected_2x2\<lparr>clipboard_data := Some [1, 0, 0, 0], clipboard_size := Some (2, 2),
                            selection_start := None, selection_end := None\<rparr>)"
  by (simp add: editor_copy_selection_def copy_selected_2x2 clear_selection_def)





lemma edits_loaded_2x2:
  "image' (foldl edit loaded_2x2 [(''Draw'', [(0, 0, 1)]), (''Paste'', [(1, 1, 1)])])
     = Some (image_2x2\<lparr>pixels := [1, 1, 1, 1]\<rparr>)"
  by (simp add: edit_def mutate_def save_state_def apply_writes_def setPixel_def
        loaded_2x2_def image_2x2_def init_def Let_def)

section \<open>The claims\<close>

subsection \<open>Character height detection\<close>

text \<open>
  C1 (as the code has it). After a successful load the character height is the table
  value for the heights 2048, 2259, 3390 and 3584; for any other height it is
  \<open>height div 256\<close> when that is at least 1, and the fallback 8 (not 1) otherwise.
\<close>

theorem load_image_char_height:
  "load_image c fresh (Some p) = Inr c' \<Longrightarrow> snd (pil_size p) = h \<Longrightarrow>
     char_height c' =
       (if h = 2048 then 8 else if h = 2259 then 9 else if h = 3390 then 15
        else if h = 3584 then 14
        else if h < 256 then 8 else int (h div 256))"
  by (auto simp: load_image_def detect_char_height_def Let_def split: prod.splits)

theorem load_image_char_height_witness:
  "load_image init ((!) [0]) (Some strip_1x1) = Inr loaded_1x1 \<and>
   snd (pil_size strip_1x1) = 1 \<and>
   char_height loaded_1x1 = 8"
  using load_image_char_height [OF load_strip_1x1, of 1] load_strip_1x1
  by (simp add: strip_1x1_def)

text \<open>
  C1 as stated clamps to a minimum of 1: a strip one pixel tall would get the character
  height 1. The code gives it 8.
\<close>

theorem load_image_char_height_counterexample:
  "load_image init ((!) [0]) (Some strip_1x1) = Inr loaded_1x1 \<and>
   snd (pil_size strip_1x1) = 1 \<and>
   char_height loaded_1x1 \<noteq> max 1 (int (1 div 256))"
  by (simp add: load_strip_1x1) (simp add: strip_1x1_def loaded_1x1_def init_def)

subsection \<open>The bound on the undo stack\<close>

text \<open>
  C2. From a reachable state, after any sequence of \<^verbatim>\<open>save_state\<close>, \<^verbatim>\<open>undo\<close> and
  \<^verbatim>\<open>redo\<close> the undo stack holds at most \<open>max_history\<close> entries, which is 50; and a
  \<^verbatim>\<open>save_state\<close> on a full stack drops the oldest entry and appends the new snapshot.
\<close>

theorem undo_stack_bounded:
  assumes "reachable c" and "c' = foldl history_step c ops"
  shows "max_history c' = 50 \<and>
         length (undo_stack c') \<le> max_history c' \<and>
         (\<forall>im d. image' c' = Some im \<and> length (undo_stack c') = max_history c' \<longrightarrow>
            undo_stack (save_state c' d)
              = tl (undo_stack c') @ [(pixel_data_of im, d, width im, height im)])"
proof -
  have "reachable c'" using assms by (simp add: history_run_reachable)
  then have h: "hist_inv c'" by (rule reachable_hist_inv)
  then have "0 < max_history c'" by (simp add: hist_inv_def)
  then show ?thesis using h by (auto simp: hist_inv_def save_state_full)
qed

theorem undo_stack_bounded_witness:
  "reachable loaded_1x1 \<and>
   max_history (foldl history_step loaded_1x1 (replicate 50 (SaveState ''Draw''))) = 50 \<and>
   length (undo_stack (foldl history_step loaded_1x1 (replicate 50 (SaveState ''Draw''))))
     = max_history (foldl history_step loaded_1x1 (replicate 50 (SaveState ''Draw''))) \<and>
   image' (foldl history_step loaded_1x1 (replicate 50 (SaveState ''Draw'')))
     = Some image_1x1 \<and>
   undo_stack (save_state (foldl history_step loaded_1x1 (replicate 50 (SaveState ''Draw''))) ''Paste'')
     = tl (undo_stack (foldl history_step loaded_1x1 (replicate 50 (SaveState ''Draw''))))
       @ [(pixel_data_of image_1x1, ''Paste'', 1, 1)]"
proof -
  let ?c = "foldl history_step loaded_1x1 (replicate 50 (SaveState ''Draw''))"
  have run: "image' (foldl history_step c (replicate n (SaveState d))) = Some image_1x1 \<and>
             max_history (foldl history_step c (replicate n (SaveState d))) = 50 \<and>
             length (undo_stack (foldl history_step c (replicate n (SaveState d))))
               = min 50 (length (undo_stack c) + n)"
    if "image' c = Some image_1x1" "max_history c = 50" "length (undo_stack c) \<le> 50"
    for c n d
    using that
  proof (induction n arbitrary: c)
    case 0
    then show ?case by simp
  next
    case (Suc n)
    let ?c1 = "save_state c d"
    have "image' ?c1 = Some image_1x1" "max_history ?c1 = 50"
      "length (undo_stack ?c1) = min 50 (length (undo_stack c) + 1)"
      using Suc.prems by (auto simp: save_state_def Let_def)
    with Suc.IH [of ?c1] show ?case by (simp add: min_def)
  qed
  have start: "image' loaded_1x1 = Some image_1x1" "max_history loaded_1x1 = 50"
    "length (undo_stack loaded_1x1) \<le> 50"
    by (simp_all add: loaded_1x1_def init_def)
  from run [OF start, of 50 "''Draw''"] start
  have e: "length (undo_stack ?c) = max_history ?c" and i: "image' ?c = Some image_1x1"
    by (simp_all add: loaded_1x1_def init_def)
  from undo_stack_bounded [OF reachable_loaded_1x1 refl, of "replicate 50 (SaveState ''Draw'')"]
    e i reachable_loaded_1x1
  show ?thesis by (simp add: image_1x1_def)
qed

subsection \<open>Undo and redo on a snapshot of another size\<close>

text \<open>
  C3. When the entry on top of the undo stack has a width or height other than the
  buffer's, \<^verbatim>\<open>undo\<close> returns False, the entry is gone from the undo stack and the buffer
  is what it was; \<^verbatim>\<open>redo\<close> does the same with the redo stack.
\<close>

theorem undo_mismatch_consumed:
  assumes "image' c = Some im" and "(w, h) \<noteq> (width im, height im)"
  shows "(undo_stack c \<noteq> [] \<and> last (undo_stack c) = (pd, d, w, h) \<longrightarrow>
            fst (undo c) = False \<and>
            undo_stack (snd (undo c)) = butlast (undo_stack c) \<and>
            image' (snd (undo c)) = Some im) \<and>
         (redo_stack c \<noteq> [] \<and> last (redo_stack c) = (pd, d, w, h) \<longrightarrow>
            fst (redo c) = False \<and>
            redo_stack (snd (redo c)) = butlast (redo_stack c) \<and>
            image' (snd (redo c)) = Some im)"
  using assms by (auto simp: undo_def redo_def Let_def)

theorem undo_mismatch_consumed_witness:
  "image' mismatched = Some image_1x1 \<and>
   (2, 1) \<noteq> (width image_1x1, height image_1x1) \<and>
   undo_stack mismatched \<noteq> [] \<and> last (undo_stack mismatched) = ([0, 0], ''Draw'', 2, 1) \<and>
   fst (undo mismatched) = False \<and>
   undo_stack (snd (undo mismatched)) = [] \<and>
   image' (snd (undo mismatched)) = Some image_1x1 \<and>
   redo_stack mismatched \<noteq> [] \<and> last (redo_stack mismatched) = ([0, 0], ''Draw'', 2, 1) \<and>
   fst (redo mismatched) = False \<and>
   redo_stack (snd (redo mismatched)) = [] \<and>
   image' (snd (redo mismatched)) = Some image_1x1"
  using undo_mismatch_consumed [of mismatched image_1x1 2 1 "[0, 0]" "''Draw''"]
  by (simp add: mismatched_def loaded_1x1_def image_1x1_def init_def)

text \<open>
  C10. In the same situation the snapshot of the current buffer that \<^verbatim>\<open>undo\<close> pushed
  before it looked at the sizes stays on the redo stack: the redo stack is one entry
  longer and \<^verbatim>\<open>can_redo\<close> holds although \<^verbatim>\<open>undo\<close> returned False; a failed \<^verbatim>\<open>redo\<close>
  leaves such an entry on the undo stack. The entry pushed carries the size of the
  buffer and one byte for every cell, row by row: the cell's index.
\<close>

theorem mismatch_pushes_current:
  assumes "image' c = Some im" and "(w, h) \<noteq> (width im, height im)"
  shows "(undo_stack c \<noteq> [] \<and> last (undo_stack c) = (pd, d, w, h) \<longrightarrow>
            fst (undo c) = False \<and>
            redo_stack (snd (undo c))
              = redo_stack c @ [(pixel_data_of im, ''Current'', width im, height im)] \<and>
            length (redo_stack (snd (undo c))) = length (redo_stack c) + 1 \<and>
            can_redo (snd (undo c))) \<and>
         (redo_stack c \<noteq> [] \<and> last (redo_stack c) = (pd, d, w, h) \<longrightarrow>
            fst (redo c) = False \<and>
            undo_stack (snd (redo c))
              = undo_stack c @ [(pixel_data_of im, ''Current'', width im, height im)] \<and>
            length (undo_stack (snd (redo c))) = length (undo_stack c) + 1 \<and>
            can_undo (snd (redo c))) \<and>
         length (pixel_data_of im) = width im * height im \<and>
         (\<forall>x y. x < width im \<and> y < height im \<longrightarrow>
            pixel_data_of im ! (y * width im + x) = pixelIndex im x y) \<and>
         (length (pixels im) = width im * height im \<longrightarrow> pixel_data_of im = pixels im)"
proof -
  have "(undo_stack c \<noteq> [] \<and> last (undo_stack c) = (pd, d, w, h) \<longrightarrow>
            fst (undo c) = False \<and>
            redo_stack (snd (undo c))
              = redo_stack c @ [(pixel_data_of im, ''Current'', width im, height im)] \<and>
            length (redo_stack (snd (undo c))) = length (redo_stack c) + 1 \<and>
            can_redo (snd (undo c))) \<and>
         (redo_stack c \<noteq> [] \<and> last (redo_stack c) = (pd, d, w, h) \<longrightarrow>
            fst (redo c) = False \<and>
            undo_stack (snd (redo c))
              = undo_stack c @ [(pixel_data_of im, ''Current'', width im, height im)] \<and>
            length (undo_stack (snd (redo c))) = length (undo_stack c) + 1 \<and>
            can_undo (snd (redo c)))"
    using assms by (auto simp: undo_def redo_def Let_def can_redo_def can_undo_def)
  then show ?thesis
    by (simp add: length_pixel_data_of nth_pixel_data_of pixel_data_of_pixels)
qed

theorem mismatch_pushes_current_witness:
  "image' mismatched = Some image_1x1 \<and>
   (2, 1) \<noteq> (width image_1x1, height image_1x1) \<and>
   undo_stack mismatched \<noteq> [] \<and> last (undo_stack mismatched) = ([0, 0], ''Draw'', 2, 1) \<and>
   fst (undo mismatched) = False \<and>
   redo_stack (snd (undo mismatched))
     = [([0, 0], ''Draw'', 2, 1), ([1], ''Current'', 1, 1)] \<and>
   can_redo (snd (undo mismatched)) \<and>
   redo_stack mismatched \<noteq> [] \<and> last (redo_stack mismatched) = ([0, 0], ''Draw'', 2, 1) \<and>
   fst (redo mismatched) = False \<and>
   undo_stack (snd (redo mismatched))
     = [([0, 0], ''Draw'', 2, 1), ([1], ''Current'', 1, 1)] \<and>
   can_undo (snd (redo mismatched)) \<and>
   length (pixels image_1x1) = width image_1x1 * height image_1x1 \<and>
   pixel_data_of image_1x1 = [1] \<and>
   pixelIndex image_1x1 0 0 = 1"
  using mismatch_pushes_current [of mismatched image_1x1 2 1 "[0, 0]" "''Draw''"]
  by (simp add: mismatched_def loaded_1x1_def image_1x1_def init_def pixelIndex_def)

subsection \<open>Drawing outside the buffer\<close>

text \<open>
  C8 (as the code has it). A pixel position outside the buffer is ignored in silence:
  \<^verbatim>\<open>draw_pixel\<close> returns as it does after a write, reports nothing, and leaves the buffer
  and every other field as they were.
\<close>

theorem draw_pixel_out_of_range:
  assumes "image' c = Some im" and "zoom_level c \<noteq> 0"
    and "x = fst pos div zoom_level c" and "y = snd pos div zoom_level c"
    and "\<not> (0 \<le> x \<and> x < int (width im) \<and> 0 \<le> y \<and> y < int (height im))"
  shows "draw_pixel c pos = Inr c"
  using assms by (auto simp: draw_pixel_def Let_def)

theorem draw_pixel_out_of_range_witness:
  "image' loaded_1x1 = Some image_1x1 \<and>
   zoom_level loaded_1x1 \<noteq> 0 \<and>
   5 = fst (100, 0) div zoom_level loaded_1x1 \<and> 0 = snd (100, 0) div zoom_level loaded_1x1 \<and>
   \<not> (0 \<le> (5::int) \<and> 5 < int (width image_1x1) \<and>
      0 \<le> (0::int) \<and> 0 < int (height image_1x1)) \<and>
   draw_pixel loaded_1x1 (100, 0) = Inr loaded_1x1"
  using draw_pixel_out_of_range [of loaded_1x1 image_1x1 5 "(100, 0)" 0]
  by (simp add: loaded_1x1_def image_1x1_def init_def)

text \<open>
  C8 as stated has the call fail with an error for the caller. On the 1 by 1 buffer at
  zoom 20 the widget position (100, 0) is the cell (5, 0), outside the buffer, and the
  call returns normally.
\<close>

theorem draw_pixel_range_error_counterexample:
  "fst (100, 0) div zoom_level loaded_1x1 = 5 \<and>
   image' loaded_1x1 = Some image_1x1 \<and> width image_1x1 = 1 \<and>
   \<not> isl (draw_pixel loaded_1x1 (100, 0)) \<and>
   draw_pixel loaded_1x1 (100, 0) = Inr loaded_1x1"
  by (simp add: draw_pixel_def loaded_1x1_def image_1x1_def init_def)

subsection \<open>What a load resets\<close>




subsection \<open>The palette from load to save\<close>

text \<open>
  C5 (as the code has it). The palette is captured only from a picture that PIL opens in
  mode P. For such a picture, with a palette that is not empty, saving right after
  loading hands PIL's writer exactly the palette list that PIL returned at the load,
  never a recomputed one, in a picture of mode P of the same size; when the picture has
  one byte per cell, the picture handed over is the loaded one, cell for cell. For a
  picture of another mode no palette is captured, and when none is stored from an
  earlier load, saving returns False and writes nothing. What PIL's writer puts into
  the file is outside the source.
\<close>

theorem save_image_after_load:
  assumes "load_image c fresh (Some p) = Inr c'"
  shows "(pil_mode p = ''P'' \<and> pil_palette p \<noteq> [] \<longrightarrow>
            map_option pil_palette (save_image c') = Some (pil_palette p) \<and>
            map_option pil_mode (save_image c') = Some ''P'' \<and>
            map_option pil_size (save_image c') = Some (pil_size p) \<and>
            (length (pil_bytes p) = fst (pil_size p) * snd (pil_size p) \<longrightarrow>
               save_image c' = Some p)) \<and>
         (pil_mode p \<noteq> ''P'' \<and> \<not> truthy (original_palette c) \<longrightarrow> save_image c' = None)"
proof -
  obtain w h where wh: "pil_size p = (w, h)" by (cases "pil_size p")
  define pal where "pal = (if pil_mode p = ''P'' then Some (pil_palette p) else original_palette c)"
  from load_image_result [OF assms wh pal_def] obtain im where
    c': "c' = c\<lparr>original_palette := pal, char_height := detect_char_height h,
             image' := Some im, undo_stack := [], redo_stack := []\<rparr>"
    and im: "width im = w" "height im = h" "length (pixels im) = w * h"
      "truthy pal \<longrightarrow> w * h \<le> length (pil_bytes p) \<longrightarrow> pixels im = take (w * h) (pil_bytes p)"
    by (elim exE conjE)
  have saved: "save_image c' = (case pal of None \<Rightarrow> None
     | Some q \<Rightarrow> if q = [] then None
                 else Some \<lparr>pil_mode = ''P'', pil_size = (w, h), pil_palette = q,
                             pil_bytes = pixels im\<rparr>)"
    using im(1,2,3) by (cases pal) (simp_all add: save_image_def c' pixel_data_of_pixels)
  have indexed: "map_option pil_palette (save_image c') = Some (pil_palette p) \<and>
            map_option pil_mode (save_image c') = Some ''P'' \<and>
            map_option pil_size (save_image c') = Some (pil_size p) \<and>
            (length (pil_bytes p) = fst (pil_size p) * snd (pil_size p) \<longrightarrow>
               save_image c' = Some p)"
    if "pil_mode p = ''P''" "pil_palette p \<noteq> []"
  proof -
    have pal: "pal = Some (pil_palette p)" "truthy pal"
      using that by (simp_all add: pal_def truthy_def)
    have "pixels im = pil_bytes p" if "length (pil_bytes p) = w * h"
      using im(4) pal(2) that by simp
    then show ?thesis
      using that wh by (simp add: saved pal(1))
  qed
  have other: "save_image c' = None" if "pil_mode p \<noteq> ''P''" "\<not> truthy (original_palette c)"
    using that by (cases "original_palette c") (simp_all add: saved pal_def truthy_def)
  show ?thesis
    using indexed other by blast
qed

theorem save_image_after_load_witness:
  "load_image init ((!) [0]) (Some strip_1x1) = Inr loaded_1x1 \<and>
   pil_mode strip_1x1 = ''P'' \<and> pil_palette strip_1x1 \<noteq> [] \<and>
   length (pil_bytes strip_1x1) = fst (pil_size strip_1x1) * snd (pil_size strip_1x1) \<and>
   map_option pil_palette (save_image loaded_1x1) = Some [0, 0, 0, 255, 255, 255] \<and>
   save_image loaded_1x1 = Some strip_1x1 \<and>
   load_image init ((!) [3, 9]) (Some grey_strip) = Inr loaded_grey \<and>
   pil_mode grey_strip \<noteq> ''P'' \<and> \<not> truthy (original_palette init) \<and>
   save_image loaded_grey = None"
  using save_image_after_load [OF load_strip_1x1] save_image_after_load [OF load_grey_strip]
    load_strip_1x1 load_grey_strip
  by (simp add: strip_1x1_def grey_strip_def two_tones_def init_def truthy_def)

text \<open>
  C5 as stated holds for every indexed source. PIL opens an indexed BMP whose palette is
  the grey ramp in mode L, and for that picture, loaded first, nothing is captured and
  the save refuses: no palette table is written at all.
\<close>

theorem save_image_grey_counterexample:
  "pil_mode grey_strip = ''L'' \<and>
   load_image init ((!) [3, 9]) (Some grey_strip) = Inr loaded_grey \<and>
   original_palette loaded_grey = None \<and>
   save_image loaded_grey = None"
  by (simp add: load_grey_strip)
     (simp add: grey_strip_def loaded_grey_def image_grey_def init_def save_image_def)

subsection \<open>Undo and redo as inverses\<close>

text \<open>
  C9. Take a buffer and \<open>n\<close> edits, each a \<^verbatim>\<open>save_state\<close> followed by a mutation of the
  buffer (any series of pixel writes, which leave the size alone), with \<open>n\<close> at most
  \<open>max_history\<close>. Then \<open>n\<close> calls of \<^verbatim>\<open>undo\<close> bring back the buffer from before the
  edits, and \<open>n\<close> calls of \<^verbatim>\<open>redo\<close> after them the buffer from after the edits. The
  colour table of the buffer is as \<^verbatim>\<open>load_image\<close> makes it: empty, or with an entry for
  every byte.
\<close>

theorem undo_redo_inverse:
  assumes "image' c = Some im" and "length (pixels im) = width im * height im"
    and "colortable im = [] \<or> 256 \<le> length (colortable im)"
    and "length es \<le> max_history c" and "n = length es"
  shows "image' (undo_n n (foldl edit c es)) = image' c \<and>
         image' (redo_n n (undo_n n (foldl edit c es))) = image' (foldl edit c es)"
proof (cases "colortable im = []")
  case True
  have "image' (foldl edit c es) = Some im"
    using assms(1) True by (rule edits_no_table)
  moreover from this have u: "image' (undo_n n (foldl edit c es)) = Some im"
    using True by (rule undo_n_no_table)
  moreover have "image' (redo_n n (undo_n n (foldl edit c es))) = Some im"
    using u True by (rule redo_n_no_table)
  ultimately show ?thesis using assms(1) by simp
next
  case False
  then have table: "256 \<le> length (colortable im)" using assms(3) by simp
  let ?c' = "foldl edit c es" and ?w = "width im" and ?h = "height im"
  from edits_stack [OF assms(1,2,4)] obtain us ss im' where
    st: "undo_stack ?c' = us @ ss" and len: "length ss = length es"
    and fit: "entries_fit ?w ?h ss"
    and first: "hd (map fst ss @ [pixels im']) = pixels im"
    and img: "image' ?c' = Some im'"
    and size: "width im' = ?w" "height im' = ?h" "length (pixels im') = ?w * ?h"
    and same_table: "colortable im' = colortable im"
    by auto
  have table': "256 \<le> length (colortable im')" using table same_table by simp
  let ?c'' = "undo_n (length ss) ?c'"
  let ?rs = "rev (map (\<lambda>p. (p, ''Current'', ?w, ?h)) (tl (map fst ss @ [pixels im'])))"
  from undo_n_entries [OF fit img size st table']
  have u: "image' ?c'' = Some (im'\<lparr>pixels := pixels im\<rparr>)"
    and r: "redo_stack ?c'' = redo_stack ?c' @ ?rs"
    using first by simp_all
  have same: "im'\<lparr>pixels := pixels im\<rparr> = im"
    using size same_table by (intro qimage_pixels_eq) simp_all
  have fit': "entries_fit ?w ?h ?rs"
    using fit size(3) by (cases ss) (auto simp: entries_fit_def)
  have lrs: "length ?rs = length ss" by simp
  have img'': "image' ?c'' = Some im" using u same by simp
  from redo_n_entries [OF fit' img'' refl refl assms(2) r table]
  have "image' (redo_n (length ?rs) ?c'') = Some (im\<lparr>pixels := hd (map fst ?rs @ [pixels im])\<rparr>)"
    by simp
  moreover have "hd (map fst ?rs @ [pixels im]) = pixels im'"
    using first by (cases ss) (simp_all add: rev_map [symmetric] comp_def)
  moreover have "im\<lparr>pixels := pixels im'\<rparr> = im'"
    using size same_table by (intro qimage_pixels_eq) simp_all
  ultimately have "image' (redo_n (length ss) ?c'') = Some im'"
    using lrs by simp
  then show ?thesis
    using img'' img assms(1,5) len by simp
qed

theorem undo_redo_inverse_witness:
  "image' loaded_2x2 = Some image_2x2 \<and>
   length (pixels image_2x2) = width image_2x2 * height image_2x2 \<and>
   (colortable image_2x2 = [] \<or> 256 \<le> length (colortable image_2x2)) \<and>
   length [(''Draw'', [(0, 0, 1)]), (''Paste'', [(1, 1, 1)])] \<le> max_history loaded_2x2 \<and>
   2 = length [(''Draw'', [(0, 0, 1 :: 32 word)]), (''Paste'', [(1 :: nat, 1 :: nat, 1)])] \<and>
   pixels image_2x2 = [0, 1, 1, 0] \<and>
   image' (foldl edit loaded_2x2 [(''Draw'', [(0, 0, 1)]), (''Paste'', [(1, 1, 1)])])
     = Some (image_2x2\<lparr>pixels := [1, 1, 1, 1]\<rparr>) \<and>
   image' (undo_n 2 (foldl edit loaded_2x2 [(''Draw'', [(0, 0, 1)]), (''Paste'', [(1, 1, 1)])]))
     = Some image_2x2 \<and>
   image' (redo_n 2 (undo_n 2
       (foldl edit loaded_2x2 [(''Draw'', [(0, 0, 1)]), (''Paste'', [(1, 1, 1)])])))
     = Some (image_2x2\<lparr>pixels := [1, 1, 1, 1]\<rparr>)"
  using undo_redo_inverse [of loaded_2x2 image_2x2
      "[(''Draw'', [(0, 0, 1)]), (''Paste'', [(1, 1, 1)])]" 2] edits_loaded_2x2
  by (simp add: loaded_2x2_def image_2x2_def init_def)

subsection \<open>Copying the selection\<close>

text \<open>
  C6. In a reachable state the copy command fails, changing nothing, when there is no
  selection (no start or no end point). With a selection it succeeds: the clipboard gets
  the cells of the normalised rectangle row by row, with 0 for every cell outside the
  buffer, so that the payload has width times height entries, the clipboard size is that
  of the rectangle, and the selection is cleared.
\<close>

theorem editor_copy_selection_payload:
  assumes "reachable c"
    and "x1 = min sx ex" and "y1 = min sy ey" and "x2 = max sx ex" and "y2 = max sy ey"
    and "w = x2 - x1 + 1" and "h = y2 - y1 + 1"
  shows "(selection_start c = None \<or> selection_end c = None \<longrightarrow>
            editor_copy_selection c = (False, c)) \<and>
         (selection_start c = Some (sx, sy) \<and> selection_end c = Some (ex, ey) \<longrightarrow>
            (\<exists>im data.
               image' c = Some im \<and>
               editor_copy_selection c
                 = (True, c\<lparr>clipboard_data := Some data, clipboard_size := Some (w, h),
                             selection_start := None, selection_end := None\<rparr>) \<and>
               int (length data) = w * h \<and>
               (\<forall>dx dy. 0 \<le> dx \<and> dx < w \<and> 0 \<le> dy \<and> dy < h \<longrightarrow>
                  data ! nat (dy * w + dx)
                    = (if 0 \<le> x1 + dx \<and> x1 + dx < int (width im) \<and>
                          0 \<le> y1 + dy \<and> y1 + dy < int (height im)
                       then pixelIndex im (nat (x1 + dx)) (nat (y1 + dy)) else 0))))"
proof (intro conjI impI)
  assume "selection_start c = None \<or> selection_end c = None"
  then show "editor_copy_selection c = (False, c)"
    by (auto simp: editor_copy_selection_def copy_selection_def split: option.splits)
next
  assume sel: "selection_start c = Some (sx, sy) \<and> selection_end c = Some (ex, ey)"
  have "state_inv c" using assms(1) by (rule reachable_state_inv)
  with sel obtain im where im: "image' c = Some im"
    by (cases "image' c") (auto simp: state_inv_def)
  let ?data = "copy_cells im x1 y1 x2 y2"
  have "editor_copy_selection c
          = (True, c\<lparr>clipboard_data := Some ?data, clipboard_size := Some (w, h),
                      selection_start := None, selection_end := None\<rparr>)"
    using sel im assms(2-7)
    by (simp add: editor_copy_selection_def copy_selection_def clear_selection_def Let_def)
  moreover have "0 < w" "0 < h" using assms(2-7) by (simp_all add: min_def max_def)
  then have "int (length ?data) = w * h"
    using assms(6,7) by (simp add: length_copy_cells nat_mult_distrib mult.commute)
  moreover have "?data ! nat (dy * w + dx)
                    = (if 0 \<le> x1 + dx \<and> x1 + dx < int (width im) \<and>
                          0 \<le> y1 + dy \<and> y1 + dy < int (height im)
                       then pixelIndex im (nat (x1 + dx)) (nat (y1 + dy)) else 0)"
    if "0 \<le> dx \<and> dx < w \<and> 0 \<le> dy \<and> dy < h" for dx dy
    using that nth_copy_cells [of dx x2 x1 dy y2 y1 im] assms(6,7)
    by (simp add: cell_or_zero_def)
  ultimately show "\<exists>im data.
               image' c = Some im \<and>
               editor_copy_selection c
                 = (True, c\<lparr>clipboard_data := Some data, clipboard_size := Some (w, h),
                             selection_start := None, selection_end := None\<rparr>) \<and>
               int (length data) = w * h \<and>
               (\<forall>dx dy. 0 \<le> dx \<and> dx < w \<and> 0 \<le> dy \<and> dy < h \<longrightarrow>
                  data ! nat (dy * w + dx)
                    = (if 0 \<le> x1 + dx \<and> x1 + dx < int (width im) \<and>
                          0 \<le> y1 + dy \<and> y1 + dy < int (height im)
                       then pixelIndex im (nat (x1 + dx)) (nat (y1 + dy)) else 0))"
    using im by blast
qed

theorem editor_copy_selection_payload_witness:
  "reachable loaded_1x1 \<and> selection_start loaded_1x1 = None \<and>
   editor_copy_selection loaded_1x1 = (False, loaded_1x1) \<and>
   reachable selected_2x2 \<and>
   selection_start selected_2x2 = Some (1, 0) \<and> selection_end selected_2x2 = Some (2, 1) \<and>
   image' selected_2x2 = Some image_2x2 \<and>
   editor_copy_selection selected_2x2
     = (True, selected_2x2\<lparr>clipboard_data := Some [1, 0, 0, 0], clipboard_size := Some (2, 2),
                            selection_start := None, selection_end := None\<rparr>)"
proof -
  have none: "selection_start loaded_1x1 = None"
    by (simp add: loaded_1x1_def init_def)
  have some: "selection_start selected_2x2 = Some (1, 0) \<and> selection_end selected_2x2 = Some (2, 1)"
    "image' selected_2x2 = Some image_2x2"
    by (simp_all add: selected_2x2_def loaded_2x2_def)
  from editor_copy_selection_payload [OF reachable_loaded_1x1 refl refl refl refl refl refl] none
  have "editor_copy_selection loaded_1x1 = (False, loaded_1x1)"
    by blast
  moreover
  from editor_copy_selection_payload [OF reachable_selected_2x2 refl refl refl refl refl refl,
      where sx = 1 and sy = 0 and ex = 2 and ey = 1] some
  obtain data where "editor_copy_selection selected_2x2
                 = (True, selected_2x2\<lparr>clipboard_data := Some data,
                      clipboard_size := Some (max 1 2 - min 1 2 + 1, max 0 1 - min 0 1 + 1),
                      selection_start := None, selection_end := None\<rparr>)"
    by blast
  ultimately show ?thesis
    using none some reachable_loaded_1x1 reachable_selected_2x2 editor_copy_selected_2x2
    by simp
qed

subsection \<open>Committing a paste\<close>




end
